theory Spec2Isabelle
  imports Main
begin

section \<open>The store: nodes, the set header, iterators\<close>

text \<open>
  The Go package keeps a red-black tree of heap-allocated \<open>Node\<close> structs that point at
  each other (\<open>left\<close>, \<open>right\<close>, \<open>parent\<close>).  A pointer is \<open>None\<close> (nil) or \<open>Some a\<close>
  for an address \<open>a\<close>; the node store maps every address to a node struct, and \<open>fresh\<close> is
  the address the next \<open>&Node{...}\<close> receives.  Dereferencing nil is the one way the Go
  code can panic; it is the error \<open>NilDeref\<close>.  A loop that does not come back is the
  result \<open>None\<close> of the enclosing option.

  \<open>Color\<close> is a two-valued type in the source (\<open>Black = true\<close>, \<open>Red = false\<close>).
  Keys are values of \<open>interface{}\<close>.  The set looks at a key only through the
  comparator, so the operations are written for any key type \<open>'k\<close>.  \<open>Value\<close> hands a
  key out next to Go's nil; it is written for stores with key type \<open>'v option\<close>, where
  \<open>None\<close> is the nil interface value (which \<open>Insert\<close> accepts as a key like any other).
  The \<open>size\<close> field is a Go \<open>int\<close>; it counts allocated nodes and cannot reach
  \<open>2^63\<close>, so it is an unbounded integer here.
\<close>

datatype Color = Black | Red

type_synonym ref = nat

record 'k Node =
  key :: 'k
  color :: Color
  left :: "ref option"
  right :: "ref option"
  parent :: "ref option"

record 'k Set_st =
  nodes :: "ref \<Rightarrow> 'k Node"
  fresh :: ref
  root :: "ref option"
  size_s :: int
  compare :: "'k \<Rightarrow> 'k \<Rightarrow> int"

record Iterator =
  node :: "ref option"
  reverse :: bool

datatype error = NilDeref

type_synonym 'a outcome = "(error + 'a) option"

subsection \<open>Field writes and allocation\<close>

definition set_left :: "ref \<Rightarrow> ref option \<Rightarrow> 'k Set_st \<Rightarrow> 'k Set_st" where
  "set_left a v s = s\<lparr>nodes := (nodes s)(a := (nodes s a)\<lparr>left := v\<rparr>)\<rparr>"

definition set_right :: "ref \<Rightarrow> ref option \<Rightarrow> 'k Set_st \<Rightarrow> 'k Set_st" where
  "set_right a v s = s\<lparr>nodes := (nodes s)(a := (nodes s a)\<lparr>right := v\<rparr>)\<rparr>"

definition set_parent :: "ref \<Rightarrow> ref option \<Rightarrow> 'k Set_st \<Rightarrow> 'k Set_st" where
  "set_parent a v s = s\<lparr>nodes := (nodes s)(a := (nodes s a)\<lparr>parent := v\<rparr>)\<rparr>"

definition set_color :: "ref \<Rightarrow> Color \<Rightarrow> 'k Set_st \<Rightarrow> 'k Set_st" where
  "set_color a v s = s\<lparr>nodes := (nodes s)(a := (nodes s a)\<lparr>color := v\<rparr>)\<rparr>"

definition set_key :: "ref \<Rightarrow> 'k \<Rightarrow> 'k Set_st \<Rightarrow> 'k Set_st" where
  "set_key a v s = s\<lparr>nodes := (nodes s)(a := (nodes s a)\<lparr>key := v\<rparr>)\<rparr>"

text \<open>\<open>&Node{...}\<close>: the struct is stored at the fresh address.\<close>

definition alloc :: "'k Node \<Rightarrow> 'k Set_st \<Rightarrow> ref \<times> 'k Set_st" where
  "alloc n s = (fresh s, s\<lparr>nodes := (nodes s)(fresh s := n), fresh := Suc (fresh s)\<rparr>)"

section \<open>The Set operations\<close>

text \<open>
  \<open>NewSet\<close> returns a header with nil root and size 0.  The content of the memory that
  has not been allocated yet is a parameter.
\<close>

definition NewSet :: "('k \<Rightarrow> 'k \<Rightarrow> int) \<Rightarrow> (ref \<Rightarrow> 'k Node) \<Rightarrow> 'k Set_st" where
  "NewSet cmp mem = \<lparr>nodes = mem, fresh = 0, root = None, size_s = 0, compare = cmp\<rparr>"

definition Size :: "'k Set_st \<Rightarrow> int \<times> 'k Set_st" where
  "Size s = (size_s s, s)"

definition Clear :: "'k Set_st \<Rightarrow> 'k Set_st" where
  "Clear s = s\<lparr>root := None, size_s := 0\<rparr>"

definition IsEmpty :: "'k Set_st \<Rightarrow> bool \<times> 'k Set_st" where
  "IsEmpty s = (size_s s = 0, s)"

subsection \<open>Rotations\<close>

definition leftRotate :: "ref option \<Rightarrow> 'k Set_st \<Rightarrow> error + 'k Set_st" where
  "leftRotate xp s =
    (case xp of None \<Rightarrow> Inl NilDeref | Some x \<Rightarrow>
     (case right (nodes s x) of None \<Rightarrow> Inl NilDeref | Some y \<Rightarrow>
       let s1 = set_right x (left (nodes s y)) s;
           s2 = (case left (nodes s1 y) of None \<Rightarrow> s1
                 | Some yl \<Rightarrow> set_parent yl (Some x) s1);
           s3 = set_parent y (parent (nodes s2 x)) s2;
           s4 = (case parent (nodes s3 x) of None \<Rightarrow> s3\<lparr>root := Some y\<rparr>
                 | Some p \<Rightarrow>
                     if Some x = left (nodes s3 p) then set_left p (Some y) s3
                     else set_right p (Some y) s3);
           s5 = set_left y (Some x) s4;
           s6 = set_parent x (Some y) s5
       in Inr s6))"

definition rightRotate :: "ref option \<Rightarrow> 'k Set_st \<Rightarrow> error + 'k Set_st" where
  "rightRotate xp s =
    (case xp of None \<Rightarrow> Inl NilDeref | Some x \<Rightarrow>
     (case left (nodes s x) of None \<Rightarrow> Inl NilDeref | Some y \<Rightarrow>
       let s1 = set_left x (right (nodes s y)) s;
           s2 = (case right (nodes s1 y) of None \<Rightarrow> s1
                 | Some yr \<Rightarrow> set_parent yr (Some x) s1);
           s3 = set_parent y (parent (nodes s2 x)) s2;
           s4 = (case parent (nodes s3 x) of None \<Rightarrow> s3\<lparr>root := Some y\<rparr>
                 | Some p \<Rightarrow>
                     if Some x = right (nodes s3 p) then set_right p (Some y) s3
                     else set_left p (Some y) s3);
           s5 = set_right y (Some x) s4;
           s6 = set_parent x (Some y) s5
       in Inr s6))"

subsection \<open>Traversal primitives\<close>

partial_function (option) minimum :: "ref option \<Rightarrow> 'k Set_st \<Rightarrow> ref option outcome" where
  "minimum x s =
    (case x of None \<Rightarrow> Some (Inl NilDeref) | Some a \<Rightarrow>
     (case left (nodes s a) of None \<Rightarrow> Some (Inr x) | Some l \<Rightarrow> minimum (Some l) s))"

declare minimum.simps [code]

partial_function (option) maximum :: "ref option \<Rightarrow> 'k Set_st \<Rightarrow> ref option outcome" where
  "maximum x s =
    (case x of None \<Rightarrow> Some (Inl NilDeref) | Some a \<Rightarrow>
     (case right (nodes s a) of None \<Rightarrow> Some (Inr x) | Some r \<Rightarrow> maximum (Some r) s))"

declare maximum.simps [code]

text \<open>The upward loops of \<open>successor\<close> and \<open>predecessor\<close>: \<open>for y != nil && x == y.right\<close>.\<close>

partial_function (option) successor_up ::
  "ref option \<Rightarrow> ref option \<Rightarrow> 'k Set_st \<Rightarrow> ref option outcome" where
  "successor_up x y s =
    (case y of None \<Rightarrow> Some (Inr None) | Some b \<Rightarrow>
       if x = right (nodes s b) then successor_up (Some b) (parent (nodes s b)) s
       else Some (Inr y))"

declare successor_up.simps [code]

partial_function (option) predecessor_up ::
  "ref option \<Rightarrow> ref option \<Rightarrow> 'k Set_st \<Rightarrow> ref option outcome" where
  "predecessor_up x y s =
    (case y of None \<Rightarrow> Some (Inr None) | Some b \<Rightarrow>
       if x = left (nodes s b) then predecessor_up (Some b) (parent (nodes s b)) s
       else Some (Inr y))"

declare predecessor_up.simps [code]

definition successor :: "ref option \<Rightarrow> 'k Set_st \<Rightarrow> ref option outcome" where
  "successor x s =
    (case x of None \<Rightarrow> Some (Inl NilDeref) | Some a \<Rightarrow>
       if right (nodes s a) \<noteq> None then minimum (right (nodes s a)) s
       else successor_up x (parent (nodes s a)) s)"

definition predecessor :: "ref option \<Rightarrow> 'k Set_st \<Rightarrow> ref option outcome" where
  "predecessor x s =
    (case x of None \<Rightarrow> Some (Inl NilDeref) | Some a \<Rightarrow>
       if left (nodes s a) \<noteq> None then maximum (left (nodes s a)) s
       else predecessor_up x (parent (nodes s a)) s)"

subsection \<open>Reading and writing through a pointer that may be nil\<close>

definition bindE :: "error + 'a \<Rightarrow> ('a \<Rightarrow> error + 'b) \<Rightarrow> error + 'b" where
  "bindE m f = (case m of Inl e \<Rightarrow> Inl e | Inr v \<Rightarrow> f v)"

definition bindO :: "'a outcome \<Rightarrow> ('a \<Rightarrow> 'b outcome) \<Rightarrow> 'b outcome" where
  "bindO m f = (case m of None \<Rightarrow> None | Some (Inl e) \<Rightarrow> Some (Inl e) | Some (Inr v) \<Rightarrow> f v)"

text \<open>\<open>rd f p s\<close> is the field read \<open>p.f\<close>, \<open>wr upd p v s\<close> the field write \<open>p.f = v\<close>.\<close>

definition rd :: "('k Node \<Rightarrow> 'a) \<Rightarrow> ref option \<Rightarrow> 'k Set_st \<Rightarrow> error + 'a" where
  "rd f p s = (case p of None \<Rightarrow> Inl NilDeref | Some a \<Rightarrow> Inr (f (nodes s a)))"

definition wr :: "(ref \<Rightarrow> 'v \<Rightarrow> 'k Set_st \<Rightarrow> 'k Set_st) \<Rightarrow> ref option \<Rightarrow> 'v \<Rightarrow> 'k Set_st
    \<Rightarrow> error + 'k Set_st" where
  "wr upd p v s = (case p of None \<Rightarrow> Inl NilDeref | Some a \<Rightarrow> Inr (upd a v s))"

text \<open>\<open>z.parent.parent\<close>\<close>

definition grandparent :: "ref option \<Rightarrow> 'k Set_st \<Rightarrow> error + ref option" where
  "grandparent z s = bindE (rd parent z s) (\<lambda>p. rd parent p s)"

text \<open>\<open>y != nil && y.color == Red\<close> and \<open>y == nil || y.color == Black\<close>\<close>

definition is_red :: "ref option \<Rightarrow> 'k Set_st \<Rightarrow> bool" where
  "is_red y s = (case y of None \<Rightarrow> False | Some a \<Rightarrow> color (nodes s a) = Red)"

definition nil_or_black :: "ref option \<Rightarrow> 'k Set_st \<Rightarrow> bool" where
  "nil_or_black y s = (case y of None \<Rightarrow> True | Some a \<Rightarrow> color (nodes s a) = Black)"

text \<open>\<open>if p != nil { p.color = Black }\<close>\<close>

definition blacken_if_present :: "ref option \<Rightarrow> 'k Set_st \<Rightarrow> 'k Set_st" where
  "blacken_if_present p s = (case p of None \<Rightarrow> s | Some a \<Rightarrow> set_color a Black s)"

subsection \<open>Insertion\<close>

text \<open>The loop condition \<open>z.parent != nil && z.parent.color == Red\<close>.\<close>

definition insertFixup_cond :: "ref option \<Rightarrow> 'k Set_st \<Rightarrow> error + bool" where
  "insertFixup_cond z s = bindE (rd parent z s) (\<lambda>zp. Inr (is_red zp s))"

text \<open>One pass through the loop body; the result is the new \<open>z\<close> and the new store.\<close>

definition insertFixup_body :: "ref option \<Rightarrow> 'k Set_st \<Rightarrow> error + (ref option \<times> 'k Set_st)" where
  "insertFixup_body z s =
    bindE (rd parent z s) (\<lambda>zp.
    bindE (rd parent zp s) (\<lambda>zpp.
    bindE (rd left zpp s) (\<lambda>zppl.
    if zp = zppl then
      bindE (rd right zpp s) (\<lambda>y.
      if is_red y s then
        bindE (wr set_color zp Black s) (\<lambda>s1.
        bindE (wr set_color y Black s1) (\<lambda>s2.
        bindE (grandparent z s2) (\<lambda>g.
        bindE (wr set_color g Red s2) (\<lambda>s3.
        bindE (grandparent z s3) (\<lambda>g'. Inr (g', s3))))))
      else
        bindE (rd right zp s) (\<lambda>zpr.
        bindE (if z = zpr then bindE (leftRotate zp s) (\<lambda>s1. Inr (zp, s1)) else Inr (z, s))
          (\<lambda>(z1, s1).
        bindE (rd parent z1 s1) (\<lambda>p1.
        bindE (wr set_color p1 Black s1) (\<lambda>s2.
        bindE (grandparent z1 s2) (\<lambda>g2.
        bindE (wr set_color g2 Red s2) (\<lambda>s3.
        bindE (grandparent z1 s3) (\<lambda>g3.
        bindE (rightRotate g3 s3) (\<lambda>s4. Inr (z1, s4))))))))))
    else
      (let y = zppl in
      if is_red y s then
        bindE (wr set_color zp Black s) (\<lambda>s1.
        bindE (wr set_color y Black s1) (\<lambda>s2.
        bindE (grandparent z s2) (\<lambda>g.
        bindE (wr set_color g Red s2) (\<lambda>s3.
        bindE (grandparent z s3) (\<lambda>g'. Inr (g', s3))))))
      else
        bindE (rd left zp s) (\<lambda>zpl.
        bindE (if z = zpl then bindE (rightRotate zp s) (\<lambda>s1. Inr (zp, s1)) else Inr (z, s))
          (\<lambda>(z1, s1).
        bindE (rd parent z1 s1) (\<lambda>p1.
        bindE (wr set_color p1 Black s1) (\<lambda>s2.
        bindE (grandparent z1 s2) (\<lambda>g2.
        bindE (wr set_color g2 Red s2) (\<lambda>s3.
        bindE (grandparent z1 s3) (\<lambda>g3.
        bindE (leftRotate g3 s3) (\<lambda>s4. Inr (z1, s4)))))))))))))"

partial_function (option) insertFixup :: "ref option \<Rightarrow> 'k Set_st \<Rightarrow> 'k Set_st outcome" where
  "insertFixup z s =
    (case insertFixup_cond z s of
       Inl e \<Rightarrow> Some (Inl e)
     | Inr b \<Rightarrow>
        if b then
          (case insertFixup_body z s of
             Inl e \<Rightarrow> Some (Inl e)
           | Inr (z', s') \<Rightarrow> insertFixup z' s')
        else Some (wr set_color (root s) Black s))"

declare insertFixup.simps [code]

text \<open>
  The descent of \<open>Insert\<close> ends in one of two ways: the comparator reports an equal key
  (\<open>Duplicate\<close>), or \<open>node\<close> becomes nil with \<open>parent\<close> the last node visited.
\<close>

datatype descent = Duplicate | Slot "ref option"

partial_function (option) Insert_descend ::
  "'k \<Rightarrow> ref option \<Rightarrow> ref option \<Rightarrow> 'k Set_st \<Rightarrow> descent option" where
  "Insert_descend k nd par s =
    (case nd of None \<Rightarrow> Some (Slot par) | Some a \<Rightarrow>
      (let cmp = compare s k (key (nodes s a)) in
       if cmp = 0 then Some Duplicate
       else if cmp < 0 then Insert_descend k (left (nodes s a)) nd s
       else Insert_descend k (right (nodes s a)) nd s))"

declare Insert_descend.simps [code]

text \<open>
  The new Red node is allocated with \<open>parent\<close> set, and hung below \<open>parent\<close> on the
  side the comparator says.
\<close>

definition Insert_attach :: "'k \<Rightarrow> ref option \<Rightarrow> 'k Set_st \<Rightarrow> error + (ref \<times> 'k Set_st)" where
  "Insert_attach k par s =
    (let (a, s1) = alloc \<lparr>key = k, color = Red, left = None, right = None, parent = par\<rparr> s
     in bindE (rd key par s1) (\<lambda>pk.
        bindE (if compare s1 k pk < 0 then wr set_left par (Some a) s1
               else wr set_right par (Some a) s1) (\<lambda>s2.
        Inr (a, s2))))"

definition Insert :: "'k \<Rightarrow> 'k Set_st \<Rightarrow> (bool \<times> 'k Set_st) outcome" where
  "Insert k s =
    (if root s = None then
       (let (a, s1) = alloc \<lparr>key = k, color = Black, left = None, right = None, parent = None\<rparr> s;
            s2 = s1\<lparr>root := Some a\<rparr>;
            s3 = s2\<lparr>size_s := size_s s2 + 1\<rparr>
        in Some (Inr (True, s3)))
     else
       (case Insert_descend k (root s) None s of
          None \<Rightarrow> None
        | Some Duplicate \<Rightarrow> Some (Inr (False, s))
        | Some (Slot par) \<Rightarrow>
           (case Insert_attach k par s of
              Inl e \<Rightarrow> Some (Inl e)
            | Inr (a, s2) \<Rightarrow>
               bindO (insertFixup (Some a) (s2\<lparr>size_s := size_s s2 + 1\<rparr>))
                 (\<lambda>s3. Some (Inr (True, s3))))))"

subsection \<open>Lookup\<close>

partial_function (option) Contains_loop :: "'k \<Rightarrow> ref option \<Rightarrow> 'k Set_st \<Rightarrow> bool option" where
  "Contains_loop k nd s =
    (case nd of None \<Rightarrow> Some False | Some a \<Rightarrow>
      (let cmp = compare s k (key (nodes s a)) in
       if cmp = 0 then Some True
       else if cmp < 0 then Contains_loop k (left (nodes s a)) s
       else Contains_loop k (right (nodes s a)) s))"

declare Contains_loop.simps [code]

definition Contains :: "'k \<Rightarrow> 'k Set_st \<Rightarrow> (bool \<times> 'k Set_st) outcome" where
  "Contains k s = map_option (\<lambda>b. Inr (b, s)) (Contains_loop k (root s) s)"

subsection \<open>Removal\<close>

text \<open>The loop condition \<open>x != s.root && (x == nil || x.color == Black)\<close>.\<close>

definition deleteFixup_cond :: "ref option \<Rightarrow> 'k Set_st \<Rightarrow> bool" where
  "deleteFixup_cond x s = (x \<noteq> root s \<and> nil_or_black x s)"

text \<open>
  One pass through the loop body of \<open>deleteFixup\<close>, in three pieces for each side: the
  choice of the side (\<open>x == parent.left\<close>) with the read of the sibling \<open>w\<close>, the Red
  sibling case, which rotates and re-reads \<open>w\<close>, and the remaining cases.  The sibling
  is read without a nil check, as in the source: \<open>w.color\<close> on a nil \<open>w\<close> is \<open>NilDeref\<close>.
  The result of the body is the new \<open>x\<close>, the new \<open>parent\<close> and the new store.
\<close>

definition deleteFixup_red_left ::
  "ref option \<Rightarrow> ref option \<Rightarrow> 'k Set_st \<Rightarrow> error + (ref option \<times> 'k Set_st)" where
  "deleteFixup_red_left w par s =
    bindE (rd color w s) (\<lambda>wc.
    if wc = Red then
      bindE (wr set_color w Black s) (\<lambda>s1.
      bindE (wr set_color par Red s1) (\<lambda>s2.
      bindE (leftRotate par s2) (\<lambda>s3.
      bindE (rd right par s3) (\<lambda>w'. Inr (w', s3)))))
    else Inr (w, s))"

definition deleteFixup_rest_left ::
  "ref option \<Rightarrow> ref option \<Rightarrow> 'k Set_st \<Rightarrow> error + (ref option \<times> ref option \<times> 'k Set_st)" where
  "deleteFixup_rest_left w par s =
    bindE (rd left w s) (\<lambda>wl.
    bindE (rd right w s) (\<lambda>wr'.
    if nil_or_black wl s \<and> nil_or_black wr' s then
      bindE (wr set_color w Red s) (\<lambda>s1.
      bindE (rd parent par s1) (\<lambda>pp. Inr (par, pp, s1)))
    else
      bindE (if nil_or_black wr' s then
               (let s1 = blacken_if_present wl s in
                bindE (wr set_color w Red s1) (\<lambda>s2.
                bindE (rightRotate w s2) (\<lambda>s3.
                bindE (rd right par s3) (\<lambda>w'. Inr (w', s3)))))
             else Inr (w, s)) (\<lambda>(w, s).
      bindE (rd color par s) (\<lambda>pc.
      bindE (wr set_color w pc s) (\<lambda>s1.
      bindE (wr set_color par Black s1) (\<lambda>s2.
      bindE (rd right w s2) (\<lambda>wr2.
      bindE (leftRotate par (blacken_if_present wr2 s2)) (\<lambda>s4.
      Inr (root s4, par, s4)))))))))"

definition deleteFixup_red_right ::
  "ref option \<Rightarrow> ref option \<Rightarrow> 'k Set_st \<Rightarrow> error + (ref option \<times> 'k Set_st)" where
  "deleteFixup_red_right w par s =
    bindE (rd color w s) (\<lambda>wc.
    if wc = Red then
      bindE (wr set_color w Black s) (\<lambda>s1.
      bindE (wr set_color par Red s1) (\<lambda>s2.
      bindE (rightRotate par s2) (\<lambda>s3.
      bindE (rd left par s3) (\<lambda>w'. Inr (w', s3)))))
    else Inr (w, s))"

definition deleteFixup_rest_right ::
  "ref option \<Rightarrow> ref option \<Rightarrow> 'k Set_st \<Rightarrow> error + (ref option \<times> ref option \<times> 'k Set_st)" where
  "deleteFixup_rest_right w par s =
    bindE (rd right w s) (\<lambda>wr'.
    bindE (rd left w s) (\<lambda>wl.
    if nil_or_black wr' s \<and> nil_or_black wl s then
      bindE (wr set_color w Red s) (\<lambda>s1.
      bindE (rd parent par s1) (\<lambda>pp. Inr (par, pp, s1)))
    else
      bindE (if nil_or_black wl s then
               (let s1 = blacken_if_present wr' s in
                bindE (wr set_color w Red s1) (\<lambda>s2.
                bindE (leftRotate w s2) (\<lambda>s3.
                bindE (rd left par s3) (\<lambda>w'. Inr (w', s3)))))
             else Inr (w, s)) (\<lambda>(w, s).
      bindE (rd color par s) (\<lambda>pc.
      bindE (wr set_color w pc s) (\<lambda>s1.
      bindE (wr set_color par Black s1) (\<lambda>s2.
      bindE (rd left w s2) (\<lambda>wl2.
      bindE (rightRotate par (blacken_if_present wl2 s2)) (\<lambda>s4.
      Inr (root s4, par, s4)))))))))"

definition deleteFixup_body ::
  "ref option \<Rightarrow> ref option \<Rightarrow> 'k Set_st \<Rightarrow> error + (ref option \<times> ref option \<times> 'k Set_st)" where
  "deleteFixup_body x par s =
    bindE (rd left par s) (\<lambda>pl.
    if x = pl then
      bindE (rd right par s) (\<lambda>w.
      bindE (deleteFixup_red_left w par s) (\<lambda>(w, s).
      deleteFixup_rest_left w par s))
    else
      bindE (rd left par s) (\<lambda>w.
      bindE (deleteFixup_red_right w par s) (\<lambda>(w, s).
      deleteFixup_rest_right w par s)))"

partial_function (option) deleteFixup ::
  "ref option \<Rightarrow> ref option \<Rightarrow> 'k Set_st \<Rightarrow> 'k Set_st outcome" where
  "deleteFixup x par s =
    (if deleteFixup_cond x s then
       (case deleteFixup_body x par s of
          Inl e \<Rightarrow> Some (Inl e)
        | Inr (x', par', s') \<Rightarrow> deleteFixup x' par' s')
     else Some (Inr (blacken_if_present x s)))"

declare deleteFixup.simps [code]

text \<open>
  \<open>delete\<close> up to the call of the fixup, in two pieces.  \<open>delete_unlink\<close> takes the
  node \<open>y\<close> out: its one child \<open>x\<close> (or nil) gets \<open>y\<close>'s parent, and the slot that held
  \<open>y\<close> (the root, or a child link of the parent) gets \<open>x\<close>.  \<open>delete_splice\<close> chooses
  \<open>y\<close>, unlinks it and copies its key into \<open>z\<close>; the result is \<open>x\<close>, \<open>y.parent\<close>,
  \<open>y.color\<close> and the store at that point.
\<close>

definition delete_unlink :: "ref option \<Rightarrow> 'k Set_st \<Rightarrow> error + (ref option \<times> 'k Set_st)" where
  "delete_unlink y s =
    bindE (rd left y s) (\<lambda>yl.
    bindE (rd right y s) (\<lambda>yr.
    let x = (if yl \<noteq> None then yl else yr) in
    bindE (rd parent y s) (\<lambda>yp.
    let s1 = (case x of None \<Rightarrow> s | Some xa \<Rightarrow> set_parent xa yp s) in
    bindE (rd parent y s1) (\<lambda>yp1.
    bindE (case yp1 of None \<Rightarrow> Inr (s1\<lparr>root := x\<rparr>)
           | Some pa \<Rightarrow>
               if y = left (nodes s1 pa) then Inr (set_left pa x s1)
               else Inr (set_right pa x s1)) (\<lambda>s2.
    Inr (x, s2))))))"

definition delete_splice ::
  "ref option \<Rightarrow> 'k Set_st \<Rightarrow> (ref option \<times> ref option \<times> Color \<times> 'k Set_st) outcome" where
  "delete_splice z s =
    bindO (case rd left z s of Inl e \<Rightarrow> Some (Inl e) | Inr zl \<Rightarrow>
            (case rd right z s of Inl e \<Rightarrow> Some (Inl e) | Inr zr \<Rightarrow>
              if zl = None \<or> zr = None then Some (Inr z) else successor z s)) (\<lambda>y.
    Some (
      bindE (delete_unlink y s) (\<lambda>(x, s2).
      bindE (if y \<noteq> z then bindE (rd key y s2) (\<lambda>yk. wr set_key z yk s2) else Inr s2) (\<lambda>s3.
      bindE (rd color y s3) (\<lambda>yc.
      bindE (rd parent y s3) (\<lambda>yp3.
      Inr (x, yp3, yc, s3)))))))"

definition delete :: "ref option \<Rightarrow> 'k Set_st \<Rightarrow> 'k Set_st outcome" where
  "delete z s =
    bindO (delete_splice z s) (\<lambda>(x, yp, yc, s').
      if yc = Black then deleteFixup x yp s' else Some (Inr s'))"

text \<open>The search loop of \<open>Remove\<close>: the node whose key compares equal, or nil.\<close>

partial_function (option) Remove_find :: "'k \<Rightarrow> ref option \<Rightarrow> 'k Set_st \<Rightarrow> ref option option" where
  "Remove_find k nd s =
    (case nd of None \<Rightarrow> Some None | Some a \<Rightarrow>
      (let cmp = compare s k (key (nodes s a)) in
       if cmp = 0 then Some nd
       else if cmp < 0 then Remove_find k (left (nodes s a)) s
       else Remove_find k (right (nodes s a)) s))"

declare Remove_find.simps [code]

definition Remove :: "'k \<Rightarrow> 'k Set_st \<Rightarrow> (bool \<times> 'k Set_st) outcome" where
  "Remove k s =
    (case Remove_find k (root s) s of
       None \<Rightarrow> None
     | Some None \<Rightarrow> Some (Inr (False, s))
     | Some (Some a) \<Rightarrow>
         bindO (delete (Some a) s) (\<lambda>s1. Some (Inr (True, s1\<lparr>size_s := size_s s1 - 1\<rparr>))))"

section \<open>Iterators\<close>

text \<open>
  An iterator holds a node pointer and the direction flag; its \<open>set\<close> pointer is the one
  set of the store.  Every method returns the iterator and the store next to its result.
\<close>

definition Begin :: "'k Set_st \<Rightarrow> (Iterator \<times> 'k Set_st) outcome" where
  "Begin s =
    (if root s = None then Some (Inr (\<lparr>node = None, reverse = False\<rparr>, s))
     else bindO (minimum (root s) s) (\<lambda>m. Some (Inr (\<lparr>node = m, reverse = False\<rparr>, s))))"

definition End :: "'k Set_st \<Rightarrow> Iterator \<times> 'k Set_st" where
  "End s = (\<lparr>node = None, reverse = False\<rparr>, s)"

definition RBegin :: "'k Set_st \<Rightarrow> (Iterator \<times> 'k Set_st) outcome" where
  "RBegin s =
    (if root s = None then Some (Inr (\<lparr>node = None, reverse = True\<rparr>, s))
     else bindO (maximum (root s) s) (\<lambda>m. Some (Inr (\<lparr>node = m, reverse = True\<rparr>, s))))"

definition REnd :: "'k Set_st \<Rightarrow> Iterator \<times> 'k Set_st" where
  "REnd s = (\<lparr>node = None, reverse = True\<rparr>, s)"

text \<open>
  \<open>Value\<close> returns nil on a nil node and \<open>it.node.key\<close> itself otherwise: the stored
  key, which is nil when a nil key was stored.
\<close>

definition Value ::
  "Iterator \<Rightarrow> 'v option Set_st \<Rightarrow> 'v option \<times> Iterator \<times> 'v option Set_st" where
  "Value it s = (case node it of None \<Rightarrow> (None, it, s) | Some a \<Rightarrow> (key (nodes s a), it, s))"

definition Valid :: "Iterator \<Rightarrow> 'k Set_st \<Rightarrow> bool \<times> Iterator \<times> 'k Set_st" where
  "Valid it s = (node it \<noteq> None, it, s)"

definition Next :: "Iterator \<Rightarrow> 'k Set_st \<Rightarrow> (bool \<times> Iterator \<times> 'k Set_st) outcome" where
  "Next it s =
    (if node it = None then Some (Inr (False, it, s))
     else
       bindO (if reverse it then predecessor (node it) s else successor (node it) s) (\<lambda>n.
         Some (Inr (n \<noteq> None, it\<lparr>node := n\<rparr>, s))))"

definition Prev :: "Iterator \<Rightarrow> 'k Set_st \<Rightarrow> (bool \<times> Iterator \<times> 'k Set_st) outcome" where
  "Prev it s =
    (if node it = None then
       bindO (if reverse it then minimum (root s) s else maximum (root s) s) (\<lambda>n.
         Some (Inr (n \<noteq> None, it\<lparr>node := n\<rparr>, s)))
     else
       bindO (if reverse it then successor (node it) s else predecessor (node it) s) (\<lambda>n.
         Some (Inr (n \<noteq> None, it\<lparr>node := n\<rparr>, s))))"

subsection \<open>Traversals\<close>

text \<open>
  The traversal the specification describes: from an iterator, the values \<open>Value\<close>
  returns while \<open>Valid\<close> holds, stepping with \<open>Next\<close>.  \<open>forward_keys\<close> starts it at
  \<open>Begin\<close>, \<open>reverse_keys\<close> at \<open>RBegin\<close>.  \<open>insert_all\<close> inserts the keys of a list in
  order.
\<close>

partial_function (option) collect ::
  "Iterator \<Rightarrow> 'v option Set_st \<Rightarrow> 'v option list \<Rightarrow> 'v option list outcome" where
  "collect it s acc =
    (case Valid it s of (v, it1, s1) \<Rightarrow>
       if v then
         (case Value it1 s1 of (x, it2, s2) \<Rightarrow>
            (case Next it2 s2 of
               None \<Rightarrow> None
             | Some (Inl e) \<Rightarrow> Some (Inl e)
             | Some (Inr (b, it3, s3)) \<Rightarrow> collect it3 s3 (acc @ [x])))
       else Some (Inr acc))"

declare collect.simps [code]

definition forward_keys :: "'v option Set_st \<Rightarrow> 'v option list outcome" where
  "forward_keys s = bindO (Begin s) (\<lambda>(it, s1). collect it s1 [])"

definition reverse_keys :: "'v option Set_st \<Rightarrow> 'v option list outcome" where
  "reverse_keys s = bindO (RBegin s) (\<lambda>(it, s1). collect it s1 [])"

fun insert_all :: "'k list \<Rightarrow> 'k Set_st \<Rightarrow> 'k Set_st outcome" where
  "insert_all [] s = Some (Inr s)"
| "insert_all (k # ks) s = bindO (Insert k s) (\<lambda>(b, s'). insert_all ks s')"

section \<open>A concrete instance\<close>

text \<open>The integer comparator and a zeroed memory, for evaluating the operations.\<close>

definition int_compare :: "int \<Rightarrow> int \<Rightarrow> int" where
  "int_compare a b = (if a < b then - 1 else if a = b then 0 else 1)"

definition zero_mem :: "ref \<Rightarrow> int Node" where
  "zero_mem = (\<lambda>_. \<lparr>key = 0, color = Red, left = None, right = None, parent = None\<rparr>)"

text \<open>The store after \<open>Insert(1)\<close> on a new set: one Black node at address 0.\<close>

definition one_set :: "int Set_st" where
  "one_set =
    \<lparr>nodes = zero_mem(0 := \<lparr>key = 1, color = Black, left = None, right = None, parent = None\<rparr>),
     fresh = 1, root = Some 0, size_s = 1, compare = int_compare\<rparr>"

text \<open>
  A comparator on integers with nil (nil first), a zeroed memory for such keys, and the
  store after \<open>Insert(nil)\<close> on a new set.
\<close>

definition nil_compare :: "int option \<Rightarrow> int option \<Rightarrow> int" where
  "nil_compare a b =
    (case a of
       None \<Rightarrow> (case b of None \<Rightarrow> 0 | Some y \<Rightarrow> - 1)
     | Some x \<Rightarrow> (case b of None \<Rightarrow> 1 | Some y \<Rightarrow> int_compare x y))"

definition nil_mem :: "ref \<Rightarrow> int option Node" where
  "nil_mem = (\<lambda>_. \<lparr>key = None, color = Red, left = None, right = None, parent = None\<rparr>)"

definition nil_key_set :: "int option Set_st" where
  "nil_key_set =
    \<lparr>nodes = nil_mem(0 := \<lparr>key = None, color = Black, left = None, right = None, parent = None\<rparr>),
     fresh = 1, root = Some 0, size_s = 1, compare = nil_compare\<rparr>"

section \<open>The tree a store represents\<close>

text \<open>
  The proofs relate the store to a tree value: each node with its address, color and
  key.  \<open>rep h par t\<close> says that the store \<open>h\<close> holds, for every node of \<open>t\<close>, a struct
  with exactly the fields \<open>t\<close> prescribes, \<open>par\<close> being the parent pointer of the root
  of \<open>t\<close>.  A position inside a tree is a subtree together with the frames on the path
  from it up to the root; \<open>ctx_rep\<close> is \<open>rep\<close> for such a path.
\<close>

datatype 'k tree = Leaf | Br "'k tree" ref Color 'k "'k tree"

fun ptr :: "'k tree \<Rightarrow> ref option" where
  "ptr Leaf = None"
| "ptr (Br l a c k r) = Some a"

fun addrs :: "'k tree \<Rightarrow> ref list" where
  "addrs Leaf = []"
| "addrs (Br l a c k r) = addrs l @ a # addrs r"

fun inorder :: "'k tree \<Rightarrow> 'k list" where
  "inorder Leaf = []"
| "inorder (Br l a c k r) = inorder l @ k # inorder r"

fun col :: "'k tree \<Rightarrow> Color" where
  "col Leaf = Black"
| "col (Br l a c k r) = c"

fun rep :: "(ref \<Rightarrow> 'k Node) \<Rightarrow> ref option \<Rightarrow> 'k tree \<Rightarrow> bool" where
  "rep h par Leaf = True"
| "rep h par (Br l a c k r) =
    (key (h a) = k \<and> color (h a) = c \<and> left (h a) = ptr l \<and> right (h a) = ptr r \<and>
     parent (h a) = par \<and> rep h (Some a) l \<and> rep h (Some a) r)"

datatype 'k frame = LF ref Color 'k "'k tree" | RF "'k tree" ref Color 'k

fun plug1 :: "'k tree \<Rightarrow> 'k frame \<Rightarrow> 'k tree" where
  "plug1 t (LF a c k r) = Br t a c k r"
| "plug1 t (RF l a c k) = Br l a c k t"

fun plug :: "'k tree \<Rightarrow> 'k frame list \<Rightarrow> 'k tree" where
  "plug t [] = t"
| "plug t (f # fs) = plug (plug1 t f) fs"

fun faddr :: "'k frame \<Rightarrow> ref" where
  "faddr (LF a c k r) = a"
| "faddr (RF l a c k) = a"

fun fcol :: "'k frame \<Rightarrow> Color" where
  "fcol (LF a c k r) = c"
| "fcol (RF l a c k) = c"

fun frame_addrs :: "'k frame \<Rightarrow> ref list" where
  "frame_addrs (LF a c k r) = a # addrs r"
| "frame_addrs (RF l a c k) = a # addrs l"

definition ctx_addrs :: "'k frame list \<Rightarrow> ref list" where
  "ctx_addrs fs = concat (map frame_addrs fs)"

fun hole_parent :: "'k frame list \<Rightarrow> ref option" where
  "hole_parent [] = None"
| "hole_parent (f # fs) = Some (faddr f)"

fun top_ptr :: "ref option \<Rightarrow> 'k frame list \<Rightarrow> ref option" where
  "top_ptr p [] = p"
| "top_ptr p (f # fs) = top_ptr (Some (faddr f)) fs"

fun ctx_rep :: "(ref \<Rightarrow> 'k Node) \<Rightarrow> ref option \<Rightarrow> 'k frame list \<Rightarrow> bool" where
  "ctx_rep h p [] = True"
| "ctx_rep h p (LF a c k r # fs) =
    (key (h a) = k \<and> color (h a) = c \<and> left (h a) = p \<and> right (h a) = ptr r \<and>
     parent (h a) = hole_parent fs \<and> rep h (Some a) r \<and> ctx_rep h (Some a) fs)"
| "ctx_rep h p (RF l a c k # fs) =
    (key (h a) = k \<and> color (h a) = c \<and> left (h a) = ptr l \<and> right (h a) = p \<and>
     parent (h a) = hole_parent fs \<and> rep h (Some a) l \<and> ctx_rep h (Some a) fs)"

definition abs_set :: "'k Set_st \<Rightarrow> 'k tree \<Rightarrow> bool" where
  "abs_set s T \<longleftrightarrow>
     root s = ptr T \<and> rep (nodes s) None T \<and> distinct (addrs T) \<and> (\<forall>a\<in>set (addrs T). a < fresh s)"

definition hrep :: "'k Set_st \<Rightarrow> 'k tree \<Rightarrow> 'k frame list \<Rightarrow> bool" where
  "hrep s t fs \<longleftrightarrow>
     root s = top_ptr (ptr t) fs \<and> rep (nodes s) (hole_parent fs) t \<and> ctx_rep (nodes s) (ptr t) fs"

definition same_hdr :: "'k Set_st \<Rightarrow> 'k Set_st \<Rightarrow> bool" where
  "same_hdr s s' \<longleftrightarrow> fresh s' = fresh s \<and> size_s s' = size_s s \<and> compare s' = compare s"

section \<open>Insertion on trees\<close>

fun paint :: "Color \<Rightarrow> 'k tree \<Rightarrow> 'k tree" where
  "paint c Leaf = Leaf"
| "paint c (Br l a c' k r) = Br l a c k r"

fun paint_frame :: "Color \<Rightarrow> 'k frame \<Rightarrow> 'k frame" where
  "paint_frame c (LF a c' k r) = LF a c k r"
| "paint_frame c (RF l a c' k) = RF l a c k"

fun ctx_before :: "'k frame list \<Rightarrow> 'k list" where
  "ctx_before [] = []"
| "ctx_before (LF a c k r # fs) = ctx_before fs"
| "ctx_before (RF l a c k # fs) = ctx_before fs @ inorder l @ [k]"

fun ctx_after :: "'k frame list \<Rightarrow> 'k list" where
  "ctx_after [] = []"
| "ctx_after (LF a c k r # fs) = k # inorder r @ ctx_after fs"
| "ctx_after (RF l a c k # fs) = ctx_after fs"

text \<open>
  One pass of the body of \<open>insertFixup\<close> on trees: \<open>t\<close> is the subtree at \<open>z\<close>, \<open>f\<close> the
  frame of its parent and \<open>g\<close> the frame of its grandparent.
\<close>

definition ins_step ::
  "'k tree \<Rightarrow> 'k frame \<Rightarrow> 'k frame \<Rightarrow> 'k frame list \<Rightarrow> 'k tree \<times> 'k frame list" where
  "ins_step t f g fs =
    (case g of
       LF ga gc gk u \<Rightarrow>
         if col u = Red then (Br (plug1 t (paint_frame Black f)) ga Red gk (paint Black u), fs)
         else (case f of
                 RF pl pa pc pk \<Rightarrow>
                   (case t of Leaf \<Rightarrow> (t, fs)
                    | Br l z c k r \<Rightarrow> (Br pl pa pc pk l, LF z Black k (Br r ga Red gk u) # fs))
               | LF pa pc pk pr \<Rightarrow> (t, LF pa Black pk (Br pr ga Red gk u) # fs))
     | RF u ga gc gk \<Rightarrow>
         if col u = Red then (Br (paint Black u) ga Red gk (plug1 t (paint_frame Black f)), fs)
         else (case f of
                 LF pa pc pk pr \<Rightarrow>
                   (case t of Leaf \<Rightarrow> (t, fs)
                    | Br l z c k r \<Rightarrow> (Br r pa pc pk pr, RF (Br u ga Red gk l) z Black k # fs))
               | RF pl pa pc pk \<Rightarrow> (t, RF (Br u ga Red gk pl) pa Black pk # fs)))"

lemma ins_step_length: "length (snd (ins_step t f g fs)) \<le> Suc (length fs)"
  by (auto simp: ins_step_def split: frame.splits tree.splits)

function ins_fix :: "'k tree \<Rightarrow> 'k frame list \<Rightarrow> 'k tree option" where
  "ins_fix t [] = Some (paint Black t)"
| "ins_fix t [f] = (if fcol f = Red then None else Some (paint Black (plug1 t f)))"
| "ins_fix t (f # g # fs) =
     (if fcol f = Red then (case ins_step t f g fs of (t', fs') \<Rightarrow> ins_fix t' fs')
      else Some (paint Black (plug t (f # g # fs))))"
  by pat_completeness auto
termination
proof (relation "measure (\<lambda>(t, fs). length fs)", goal_cases)
  case (2 t f g fs x y)
  then show ?case
    using ins_step_length[of t f g fs] by (simp add: case_prod_unfold)
qed simp

fun descend :: "('k \<Rightarrow> 'k \<Rightarrow> int) \<Rightarrow> 'k \<Rightarrow> 'k tree \<Rightarrow> 'k frame list \<Rightarrow> 'k frame list option" where
  "descend cmp k Leaf fs = Some fs"
| "descend cmp k (Br l a c x r) fs =
     (if cmp k x = 0 then None
      else if cmp k x < 0 then descend cmp k l (LF a c x r # fs)
      else descend cmp k r (RF l a c x # fs))"

definition ins_tree :: "('k \<Rightarrow> 'k \<Rightarrow> int) \<Rightarrow> 'k \<Rightarrow> ref \<Rightarrow> 'k tree \<Rightarrow> (bool \<times> 'k tree) option" where
  "ins_tree cmp k a T =
    (if T = Leaf then Some (True, Br Leaf a Black k Leaf)
     else case descend cmp k T [] of
            None \<Rightarrow> Some (False, T)
          | Some fs \<Rightarrow> map_option (Pair True) (ins_fix (Br Leaf a Red k Leaf) fs))"

fun slot_ok :: "('k \<Rightarrow> 'k \<Rightarrow> int) \<Rightarrow> 'k \<Rightarrow> 'k frame list \<Rightarrow> bool" where
  "slot_ok cmp k [] = True"
| "slot_ok cmp k (LF a c x r # fs) = (cmp k x < 0)"
| "slot_ok cmp k (RF l a c x # fs) = (\<not> cmp k x < 0)"

section \<open>Comparators and sorted trees\<close>

text \<open>
  What the set needs of its three-way comparator: \<open>cmp a b < 0\<close> is a strict order,
  \<open>cmp b a\<close> is positive exactly when \<open>cmp a b\<close> is negative, and keys that compare
  equal are interchangeable below and above other keys.
\<close>

definition cmp_ok :: "('k \<Rightarrow> 'k \<Rightarrow> int) \<Rightarrow> bool" where
  "cmp_ok cmp \<longleftrightarrow>
     (\<forall>a b. (cmp a b < 0) = (0 < cmp b a)) \<and>
     (\<forall>a b c. cmp a b < 0 \<longrightarrow> cmp b c < 0 \<longrightarrow> cmp a c < 0) \<and>
     (\<forall>a b c. cmp a b = 0 \<longrightarrow> cmp b c < 0 \<longrightarrow> cmp a c < 0) \<and>
     (\<forall>a b c. cmp a b < 0 \<longrightarrow> cmp b c = 0 \<longrightarrow> cmp a c < 0)"

definition ascending :: "('k \<Rightarrow> 'k \<Rightarrow> int) \<Rightarrow> 'k list \<Rightarrow> bool" where
  "ascending cmp ks = sorted_wrt (\<lambda>a b. cmp a b < 0) ks"

definition has_key :: "('k \<Rightarrow> 'k \<Rightarrow> int) \<Rightarrow> 'k \<Rightarrow> 'k list \<Rightarrow> bool" where
  "has_key cmp k ks = (\<exists>x\<in>set ks. cmp k x = 0)"

definition between :: "('k \<Rightarrow> 'k \<Rightarrow> int) \<Rightarrow> 'k \<Rightarrow> 'k frame list \<Rightarrow> bool" where
  "between cmp k fs \<longleftrightarrow>
     (\<forall>x\<in>set (ctx_before fs). cmp x k < 0) \<and> (\<forall>y\<in>set (ctx_after fs). cmp k y < 0)"


section \<open>Traversal on trees\<close>

fun dmin :: "'k tree \<Rightarrow> 'k frame list \<Rightarrow> 'k tree \<times> 'k frame list" where
  "dmin (Br Leaf a c k r) fs = (Br Leaf a c k r, fs)"
| "dmin (Br (Br ll la lc lk lr) a c k r) fs = dmin (Br ll la lc lk lr) (LF a c k r # fs)"
| "dmin Leaf fs = (Leaf, fs)"

fun dmax :: "'k tree \<Rightarrow> 'k frame list \<Rightarrow> 'k tree \<times> 'k frame list" where
  "dmax (Br l a c k Leaf) fs = (Br l a c k Leaf, fs)"
| "dmax (Br l a c k (Br rl ra rc rk rr)) fs = dmax (Br rl ra rc rk rr) (RF l a c k # fs)"
| "dmax Leaf fs = (Leaf, fs)"

fun up_succ :: "'k tree \<Rightarrow> 'k frame list \<Rightarrow> ('k tree \<times> 'k frame list) option" where
  "up_succ t [] = None"
| "up_succ t (LF a c k r # fs) = Some (Br t a c k r, fs)"
| "up_succ t (RF l a c k # fs) = up_succ (Br l a c k t) fs"

fun up_pred :: "'k tree \<Rightarrow> 'k frame list \<Rightarrow> ('k tree \<times> 'k frame list) option" where
  "up_pred t [] = None"
| "up_pred t (RF l a c k # fs) = Some (Br l a c k t, fs)"
| "up_pred t (LF a c k r # fs) = up_pred (Br t a c k r) fs"

fun znext :: "'k tree \<Rightarrow> 'k frame list \<Rightarrow> ('k tree \<times> 'k frame list) option" where
  "znext (Br l a c k Leaf) fs = up_succ (Br l a c k Leaf) fs"
| "znext (Br l a c k r) fs = Some (dmin r (RF l a c k # fs))"
| "znext Leaf fs = None"

fun zprev :: "'k tree \<Rightarrow> 'k frame list \<Rightarrow> ('k tree \<times> 'k frame list) option" where
  "zprev (Br Leaf a c k r) fs = up_pred (Br Leaf a c k r) fs"
| "zprev (Br l a c k r) fs = Some (dmax l (LF a c k r # fs))"
| "zprev Leaf fs = None"

fun suffix_keys :: "'k tree \<Rightarrow> 'k frame list \<Rightarrow> 'k list" where
  "suffix_keys Leaf fs = []"
| "suffix_keys (Br l a c k r) fs = k # inorder r @ ctx_after fs"

fun prefix_keys :: "'k tree \<Rightarrow> 'k frame list \<Rightarrow> 'k list" where
  "prefix_keys Leaf fs = []"
| "prefix_keys (Br l a c k r) fs = ctx_before fs @ inorder l @ [k]"

fun distinct_keys :: "('k \<Rightarrow> 'k \<Rightarrow> int) \<Rightarrow> 'k list \<Rightarrow> bool" where
  "distinct_keys cmp [] = True"
| "distinct_keys cmp (k # ks) = (\<not> has_key cmp k ks \<and> distinct_keys cmp ks)"

section \<open>The deletion fixup on trees\<close>

definition del_left ::
  "'k tree \<Rightarrow> ref \<Rightarrow> Color \<Rightarrow> 'k \<Rightarrow> 'k tree \<Rightarrow> 'k frame list \<Rightarrow> ('k tree \<times> 'k frame list) option" where
  "del_left x pa pc pk w fs =
    (case w of
       Leaf \<Rightarrow> None
     | Br wl wa wc wk wy \<Rightarrow>
        if col wl = Black \<and> col wy = Black then Some (Br x pa pc pk (Br wl wa Red wk wy), fs)
        else if col wy = Black then
          (case wl of
             Leaf \<Rightarrow> None
           | Br wll wla wlc wlk wlr \<Rightarrow>
              Some (plug (Br (Br x pa Black pk wll) wla pc wlk (Br wlr wa Black wk wy)) fs, []))
        else Some (plug (Br (Br x pa Black pk wl) wa pc wk (paint Black wy)) fs, []))"

definition del_right ::
  "'k tree \<Rightarrow> 'k tree \<Rightarrow> ref \<Rightarrow> Color \<Rightarrow> 'k \<Rightarrow> 'k frame list \<Rightarrow> ('k tree \<times> 'k frame list) option" where
  "del_right x w pa pc pk fs =
    (case w of
       Leaf \<Rightarrow> None
     | Br wl wa wc wk wy \<Rightarrow>
        if col wy = Black \<and> col wl = Black then Some (Br (Br wl wa Red wk wy) pa pc pk x, fs)
        else if col wl = Black then
          (case wy of
             Leaf \<Rightarrow> None
           | Br wrl wra wrc wrk wrr \<Rightarrow>
              Some (plug (Br (Br wl wa Black wk wrl) wra pc wrk (Br wrr pa Black pk x)) fs, []))
        else Some (plug (Br (paint Black wl) wa pc wk (Br wy pa Black pk x)) fs, []))"

definition del_step :: "'k tree \<Rightarrow> 'k frame \<Rightarrow> 'k frame list \<Rightarrow> ('k tree \<times> 'k frame list) option" where
  "del_step x f fs =
    (case f of
       LF pa pc pk w \<Rightarrow>
         (case w of
            Leaf \<Rightarrow> None
          | Br wl wa wc wk wy \<Rightarrow>
             if wc = Red then del_left x pa Red pk wl (LF wa Black wk wy # fs)
             else del_left x pa pc pk w fs)
     | RF w pa pc pk \<Rightarrow>
         (case w of
            Leaf \<Rightarrow> None
          | Br wl wa wc wk wy \<Rightarrow>
             if wc = Red then del_right x wy pa Red pk (RF wl wa Black wk # fs)
             else del_right x w pa pc pk fs))"

lemma del_left_measure:
  "del_left x pa pc pk w fs = Some (t', fs') \<Longrightarrow> fs' = [] \<or> fs' = fs"
  by (auto simp: del_left_def split: tree.splits if_splits)

lemma del_right_measure:
  "del_right x w pa pc pk fs = Some (t', fs') \<Longrightarrow> fs' = [] \<or> fs' = fs"
  by (auto simp: del_right_def split: tree.splits if_splits)

lemma del_left_red:
  "del_left x pa Red pk w fs = Some (t', fs') \<Longrightarrow> fs' = [] \<or> col t' = Red"
  by (auto simp: del_left_def split: tree.splits if_splits)

lemma del_right_red:
  "del_right x w pa Red pk fs = Some (t', fs') \<Longrightarrow> fs' = [] \<or> col t' = Red"
  by (auto simp: del_right_def split: tree.splits if_splits)

lemma del_step_measure:
  assumes "del_step t f fs = Some (t', fs')"
  shows "2 * length fs' + (if col t' = Black then 1 else 0) < 2 * length fs + 3"
proof (cases f)
  case f: (LF pa pc pk w)
  with assms obtain wl wa wc wk wy where w: "w = Br wl wa wc wk wy"
    by (cases w) (auto simp: del_step_def)
  show ?thesis
  proof (cases "wc = Red")
    case True
    with assms f w have d: "del_left t pa Red pk wl (LF wa Black wk wy # fs) = Some (t', fs')"
      by (simp add: del_step_def)
    from del_left_measure[OF d] del_left_red[OF d] show ?thesis by auto
  next
    case False
    with assms f w have d: "del_left t pa pc pk w fs = Some (t', fs')"
      by (simp add: del_step_def)
    from del_left_measure[OF d] show ?thesis by auto
  qed
next
  case f: (RF w pa pc pk)
  with assms obtain wl wa wc wk wy where w: "w = Br wl wa wc wk wy"
    by (cases w) (auto simp: del_step_def)
  show ?thesis
  proof (cases "wc = Red")
    case True
    with assms f w have d: "del_right t wy pa Red pk (RF wl wa Black wk # fs) = Some (t', fs')"
      by (simp add: del_step_def)
    from del_right_measure[OF d] del_right_red[OF d] show ?thesis by auto
  next
    case False
    with assms f w have d: "del_right t w pa pc pk fs = Some (t', fs')"
      by (simp add: del_step_def)
    from del_right_measure[OF d] show ?thesis by auto
  qed
qed

function del_fix :: "'k tree \<Rightarrow> 'k frame list \<Rightarrow> 'k tree option" where
  "del_fix t [] = Some (paint Black t)"
| "del_fix t (f # fs) =
     (if col t = Red then Some (plug (paint Black t) (f # fs))
      else (case del_step t f fs of None \<Rightarrow> None | Some (t', fs') \<Rightarrow> del_fix t' fs'))"
  by pat_completeness auto
termination
proof (relation "measure (\<lambda>(t, fs). 2 * length fs + (if col t = Black then 1 else 0))", goal_cases)
  case (2 t f fs x2 x y)
  then have "del_step t f fs = Some (x, y)" by simp
  from del_step_measure[OF this] 2 show ?case by (cases "col t") auto
qed simp

text \<open>The tree that \<open>one_set\<close> represents.\<close>

definition one_tree :: "int tree" where
  "one_tree = Br Leaf 0 Black 1 Leaf"

section \<open>Basic facts\<close>

lemma bindE_simps [simp]:
  "bindE (Inl e) f = Inl e"
  "bindE (Inr v) f = f v"
  by (simp_all add: bindE_def)

lemma bindO_simps [simp]:
  "bindO None f = None"
  "bindO (Some (Inl e)) f = Some (Inl e)"
  "bindO (Some (Inr v)) f = f v"
  by (simp_all add: bindO_def)

lemma bindO_eq_Some_Inr:
  "bindO m f = Some (Inr r) \<longleftrightarrow> (\<exists>v. m = Some (Inr v) \<and> f v = Some (Inr r))"
  by (auto simp: bindO_def split: option.splits sum.splits)

lemma rd_simps [simp]:
  "rd f None s = Inl NilDeref"
  "rd f (Some a) s = Inr (f (nodes s a))"
  by (simp_all add: rd_def)

lemma wr_simps [simp]:
  "wr upd None v s = Inl NilDeref"
  "wr upd (Some a) v s = Inr (upd a v s)"
  by (simp_all add: wr_def)

lemma Insert_new_set: "Insert 1 (NewSet int_compare zero_mem) = Some (Inr (True, one_set))"
  by (simp add: Insert_def NewSet_def alloc_def one_set_def)

section \<open>Stores and trees\<close>

lemma ctx_addrs_simps [simp]:
  "ctx_addrs [] = []"
  "ctx_addrs (f # fs) = frame_addrs f @ ctx_addrs fs"
  by (simp_all add: ctx_addrs_def)

lemma ptr_plug1 [simp]: "ptr (plug1 t f) = Some (faddr f)"
  by (cases f) simp_all

lemma ptr_plug: "ptr (plug t fs) = top_ptr (ptr t) fs"
  by (induction fs arbitrary: t) simp_all

lemma set_addrs_plug: "set (addrs (plug t fs)) = set (addrs t) \<union> set (ctx_addrs fs)"
proof (induction fs arbitrary: t)
  case (Cons f fs)
  then show ?case by (cases f) auto
qed simp

lemma distinct_addrs_plug: "distinct (addrs (plug t fs)) = distinct (addrs t @ ctx_addrs fs)"
proof (induction fs arbitrary: t)
  case (Cons f fs)
  then show ?case by (cases f) auto
qed simp

lemma rep_plug: "rep h None (plug t fs) = (rep h (hole_parent fs) t \<and> ctx_rep h (ptr t) fs)"
proof (induction fs arbitrary: t)
  case (Cons f fs)
  then show ?case by (cases f) auto
qed simp

lemma rep_agree: "\<forall>b\<in>set (addrs t). h' b = h b \<Longrightarrow> rep h' par t = rep h par t"
  by (induction t arbitrary: par) auto

lemma ctx_rep_agree: "\<forall>b\<in>set (ctx_addrs fs). h' b = h b \<Longrightarrow> ctx_rep h' p fs = ctx_rep h p fs"
proof (induction fs arbitrary: p)
  case (Cons f fs)
  then show ?case using rep_agree[of _ h' h] by (cases f) auto
qed simp

lemma rep_upd [simp]: "a \<notin> set (addrs t) \<Longrightarrow> rep (h(a := n)) par t = rep h par t"
  by (rule rep_agree) auto

lemma ctx_rep_upd [simp]: "a \<notin> set (ctx_addrs fs) \<Longrightarrow> ctx_rep (h(a := n)) p fs = ctx_rep h p fs"
  by (rule ctx_rep_agree) auto

lemma set_left_fields [simp]:
  "left (nodes (set_left a v s) b) = (if b = a then v else left (nodes s b))"
  "right (nodes (set_left a v s) b) = right (nodes s b)"
  "parent (nodes (set_left a v s) b) = parent (nodes s b)"
  "key (nodes (set_left a v s) b) = key (nodes s b)"
  "color (nodes (set_left a v s) b) = color (nodes s b)"
  "root (set_left a v s) = root s"
  "fresh (set_left a v s) = fresh s"
  "size_s (set_left a v s) = size_s s"
  "compare (set_left a v s) = compare s"
  by (simp_all add: set_left_def)

lemma set_right_fields [simp]:
  "right (nodes (set_right a v s) b) = (if b = a then v else right (nodes s b))"
  "left (nodes (set_right a v s) b) = left (nodes s b)"
  "parent (nodes (set_right a v s) b) = parent (nodes s b)"
  "key (nodes (set_right a v s) b) = key (nodes s b)"
  "color (nodes (set_right a v s) b) = color (nodes s b)"
  "root (set_right a v s) = root s"
  "fresh (set_right a v s) = fresh s"
  "size_s (set_right a v s) = size_s s"
  "compare (set_right a v s) = compare s"
  by (simp_all add: set_right_def)

lemma set_parent_fields [simp]:
  "parent (nodes (set_parent a v s) b) = (if b = a then v else parent (nodes s b))"
  "left (nodes (set_parent a v s) b) = left (nodes s b)"
  "right (nodes (set_parent a v s) b) = right (nodes s b)"
  "key (nodes (set_parent a v s) b) = key (nodes s b)"
  "color (nodes (set_parent a v s) b) = color (nodes s b)"
  "root (set_parent a v s) = root s"
  "fresh (set_parent a v s) = fresh s"
  "size_s (set_parent a v s) = size_s s"
  "compare (set_parent a v s) = compare s"
  by (simp_all add: set_parent_def)

lemma set_color_fields [simp]:
  "color (nodes (set_color a v s) b) = (if b = a then v else color (nodes s b))"
  "left (nodes (set_color a v s) b) = left (nodes s b)"
  "right (nodes (set_color a v s) b) = right (nodes s b)"
  "key (nodes (set_color a v s) b) = key (nodes s b)"
  "parent (nodes (set_color a v s) b) = parent (nodes s b)"
  "root (set_color a v s) = root s"
  "fresh (set_color a v s) = fresh s"
  "size_s (set_color a v s) = size_s s"
  "compare (set_color a v s) = compare s"
  by (simp_all add: set_color_def)

lemma set_key_fields [simp]:
  "key (nodes (set_key a v s) b) = (if b = a then v else key (nodes s b))"
  "left (nodes (set_key a v s) b) = left (nodes s b)"
  "right (nodes (set_key a v s) b) = right (nodes s b)"
  "color (nodes (set_key a v s) b) = color (nodes s b)"
  "parent (nodes (set_key a v s) b) = parent (nodes s b)"
  "root (set_key a v s) = root s"
  "fresh (set_key a v s) = fresh s"
  "size_s (set_key a v s) = size_s s"
  "compare (set_key a v s) = compare s"
  by (simp_all add: set_key_def)

lemma rep_setters [simp]:
  "a \<notin> set (addrs t) \<Longrightarrow> rep (nodes (set_left a v s)) par t = rep (nodes s) par t"
  "a \<notin> set (addrs t) \<Longrightarrow> rep (nodes (set_right a v s)) par t = rep (nodes s) par t"
  "a \<notin> set (addrs t) \<Longrightarrow> rep (nodes (set_parent a v s)) par t = rep (nodes s) par t"
  "a \<notin> set (addrs t) \<Longrightarrow> rep (nodes (set_color a w s)) par t = rep (nodes s) par t"
  "a \<notin> set (addrs t) \<Longrightarrow> rep (nodes (set_key a u s)) par t = rep (nodes s) par t"
  by (simp_all add: set_left_def set_right_def set_parent_def set_color_def set_key_def)

lemma ctx_rep_setters [simp]:
  "a \<notin> set (ctx_addrs fs) \<Longrightarrow> ctx_rep (nodes (set_left a v s)) p fs = ctx_rep (nodes s) p fs"
  "a \<notin> set (ctx_addrs fs) \<Longrightarrow> ctx_rep (nodes (set_right a v s)) p fs = ctx_rep (nodes s) p fs"
  "a \<notin> set (ctx_addrs fs) \<Longrightarrow> ctx_rep (nodes (set_parent a v s)) p fs = ctx_rep (nodes s) p fs"
  "a \<notin> set (ctx_addrs fs) \<Longrightarrow> ctx_rep (nodes (set_color a w s)) p fs = ctx_rep (nodes s) p fs"
  "a \<notin> set (ctx_addrs fs) \<Longrightarrow> ctx_rep (nodes (set_key a u s)) p fs = ctx_rep (nodes s) p fs"
  by (simp_all add: set_left_def set_right_def set_parent_def set_color_def set_key_def)

lemma top_ptr_Some: "fs \<noteq> [] \<Longrightarrow> top_ptr p fs = top_ptr q fs"
  by (cases fs) simp_all

lemma ptr_not_in [simp]:
  "a \<notin> set (addrs t) \<Longrightarrow> ptr t \<noteq> Some a"
  "a \<notin> set (addrs t) \<Longrightarrow> Some a \<noteq> ptr t"
  by (cases t; auto)+

lemma leftRotate_hrep:
  assumes "hrep s (Br l x c k (Br rl y c' k' rr)) fs"
      and "distinct (addrs (Br l x c k (Br rl y c' k' rr)) @ ctx_addrs fs)"
  shows "\<exists>s'. leftRotate (Some x) s = Inr s' \<and> hrep s' (Br (Br l x c k rl) y c' k' rr) fs
          \<and> same_hdr s s'"
proof (cases fs)
  case Nil
  with assms show ?thesis
    by (cases rl) (simp_all add: hrep_def leftRotate_def Let_def same_hdr_def)
next
  case (Cons f fs')
  with assms show ?thesis
    by (cases rl; cases f) (simp_all add: hrep_def leftRotate_def Let_def same_hdr_def)
qed

lemma rightRotate_hrep:
  assumes "hrep s (Br (Br ll y c' k' lr) x c k r) fs"
      and "distinct (addrs (Br (Br ll y c' k' lr) x c k r) @ ctx_addrs fs)"
  shows "\<exists>s'. rightRotate (Some x) s = Inr s' \<and> hrep s' (Br ll y c' k' (Br lr x c k r)) fs
          \<and> same_hdr s s'"
proof (cases fs)
  case Nil
  with assms show ?thesis
    by (cases lr) (simp_all add: hrep_def rightRotate_def Let_def same_hdr_def)
next
  case (Cons f fs')
  with assms show ?thesis
    by (cases lr; cases f) (simp_all add: hrep_def rightRotate_def Let_def same_hdr_def)
qed

section \<open>The insertion fixup on the store\<close>

lemma hrep_up: "hrep s t (f # fs) = hrep s (plug1 t f) fs"
  by (cases f) (auto simp: hrep_def)

lemma is_red_ptr: "rep (nodes s) par t \<Longrightarrow> is_red (ptr t) s = (col t = Red)"
  by (cases t) (auto simp: is_red_def)

lemma body_LL_recolor:
  assumes "hrep s (Br l z c k r) (f # LF ga gc gk (Br ul ua Red uk ur) # fs)"
      and "distinct (addrs (Br l z c k r) @ ctx_addrs (f # LF ga gc gk (Br ul ua Red uk ur) # fs))"
  shows "\<exists>s'. insertFixup_body (Some z) s = Inr (Some ga, s') \<and>
           hrep s' (Br (plug1 (Br l z c k r) (paint_frame Black f)) ga Red gk (Br ul ua Black uk ur)) fs \<and>
           same_hdr s s'"
  using assms
  by (cases f; cases fs rule: list.exhaust)
     (simp_all add: hrep_def insertFixup_body_def grandparent_def is_red_def same_hdr_def)

lemma ctx_cases [case_names Top LFrame RFrame]:
  "\<lbrakk>fs = [] \<Longrightarrow> P; \<And>a c k r fs'. fs = LF a c k r # fs' \<Longrightarrow> P;
    \<And>l a c k fs'. fs = RF l a c k # fs' \<Longrightarrow> P\<rbrakk> \<Longrightarrow> P"
proof (cases fs)
  case (Cons f fs')
  assume "\<And>a c k r fs'. fs = LF a c k r # fs' \<Longrightarrow> P" "\<And>l a c k fs'. fs = RF l a c k # fs' \<Longrightarrow> P"
  with Cons show P by (cases f) auto
qed auto

lemma body_LR_rotate:
  assumes "hrep s (Br l z c k r) (RF pl pa pc pk # LF ga gc gk u # fs)"
      and "distinct (addrs (Br l z c k r) @ ctx_addrs (RF pl pa pc pk # LF ga gc gk u # fs))"
      and "col u = Black"
  shows "\<exists>s'. insertFixup_body (Some z) s = Inr (Some pa, s') \<and>
           hrep s' (Br pl pa pc pk l) (LF z Black k (Br r ga Red gk u) # fs) \<and>
           same_hdr s s'"
proof -
  let ?g = "LF ga gc gk u"
  have 1: "hrep s (Br pl pa pc pk (Br l z c k r)) (?g # fs)"
    using assms(1) by (simp add: hrep_up)
  have d1: "distinct (addrs (Br pl pa pc pk (Br l z c k r)) @ ctx_addrs (?g # fs))"
    using assms(2) by auto
  from leftRotate_hrep[OF 1 d1] obtain s1 where
    r1: "leftRotate (Some pa) s = Inr s1" and
    h1: "hrep s1 (Br (Br pl pa pc pk l) z c k r) (?g # fs)" and e1: "same_hdr s s1"
    by blast
  let ?s3 = "set_color ga Red (set_color z Black s1)"
  have 3: "hrep ?s3 (Br (Br (Br pl pa pc pk l) z Black k r) ga Red gk u) fs"
    using h1 d1 by (simp add: hrep_def)
  have d3: "distinct (addrs (Br (Br (Br pl pa pc pk l) z Black k r) ga Red gk u) @ ctx_addrs fs)"
    using assms(2) by auto
  from rightRotate_hrep[OF 3 d3] obtain s4 where
    r4: "rightRotate (Some ga) ?s3 = Inr s4" and
    h4: "hrep s4 (Br (Br pl pa pc pk l) z Black k (Br r ga Red gk u)) fs" and e4: "same_hdr ?s3 s4"
    by blast
  have "insertFixup_body (Some z) s = Inr (Some pa, s4)"
    using assms(1,2,3) r1 h1 r4
    by (cases u) (simp_all add: hrep_def insertFixup_body_def grandparent_def is_red_def)
  moreover have "hrep s4 (Br pl pa pc pk l) (LF z Black k (Br r ga Red gk u) # fs)"
    using h4 by (simp add: hrep_up)
  moreover have "same_hdr s s4"
    using e1 e4 by (simp add: same_hdr_def)
  ultimately show ?thesis by blast
qed


lemma body_RR_recolor:
  assumes "hrep s (Br l z c k r) (f # RF (Br ul ua Red uk ur) ga gc gk # fs)"
      and "distinct (addrs (Br l z c k r) @ ctx_addrs (f # RF (Br ul ua Red uk ur) ga gc gk # fs))"
  shows "\<exists>s'. insertFixup_body (Some z) s = Inr (Some ga, s') \<and>
           hrep s' (Br (Br ul ua Black uk ur) ga Red gk (plug1 (Br l z c k r) (paint_frame Black f))) fs \<and>
           same_hdr s s'"
  using assms
  by (cases f; cases fs rule: list.exhaust)
     (simp_all add: hrep_def insertFixup_body_def grandparent_def is_red_def same_hdr_def)

lemma body_LL_rotate:
  assumes "hrep s (Br l z c k r) (LF pa pc pk pr # LF ga gc gk u # fs)"
      and "distinct (addrs (Br l z c k r) @ ctx_addrs (LF pa pc pk pr # LF ga gc gk u # fs))"
      and "col u = Black"
  shows "\<exists>s'. insertFixup_body (Some z) s = Inr (Some z, s') \<and>
           hrep s' (Br l z c k r) (LF pa Black pk (Br pr ga Red gk u) # fs) \<and>
           same_hdr s s'"
proof -
  let ?s3 = "set_color ga Red (set_color pa Black s)"
  have 3: "hrep ?s3 (Br (Br (Br l z c k r) pa Black pk pr) ga Red gk u) fs"
    using assms(1,2) by (simp add: hrep_def)
  have d3: "distinct (addrs (Br (Br (Br l z c k r) pa Black pk pr) ga Red gk u) @ ctx_addrs fs)"
    using assms(2) by auto
  from rightRotate_hrep[OF 3 d3] obtain s4 where
    r4: "rightRotate (Some ga) ?s3 = Inr s4" and
    h4: "hrep s4 (Br (Br l z c k r) pa Black pk (Br pr ga Red gk u)) fs" and e4: "same_hdr ?s3 s4"
    by blast
  have "insertFixup_body (Some z) s = Inr (Some z, s4)"
    using assms(1,2,3) r4
    by (cases u) (simp_all add: hrep_def insertFixup_body_def grandparent_def is_red_def)
  moreover have "hrep s4 (Br l z c k r) (LF pa Black pk (Br pr ga Red gk u) # fs)"
    using h4 by (simp add: hrep_up)
  moreover have "same_hdr s s4"
    using e4 by (simp add: same_hdr_def)
  ultimately show ?thesis by blast
qed

lemma body_RR_rotate:
  assumes "hrep s (Br l z c k r) (RF pl pa pc pk # RF u ga gc gk # fs)"
      and "distinct (addrs (Br l z c k r) @ ctx_addrs (RF pl pa pc pk # RF u ga gc gk # fs))"
      and "col u = Black"
  shows "\<exists>s'. insertFixup_body (Some z) s = Inr (Some z, s') \<and>
           hrep s' (Br l z c k r) (RF (Br u ga Red gk pl) pa Black pk # fs) \<and>
           same_hdr s s'"
proof -
  let ?s3 = "set_color ga Red (set_color pa Black s)"
  have 3: "hrep ?s3 (Br u ga Red gk (Br pl pa Black pk (Br l z c k r))) fs"
    using assms(1,2) by (simp add: hrep_def)
  have d3: "distinct (addrs (Br u ga Red gk (Br pl pa Black pk (Br l z c k r))) @ ctx_addrs fs)"
    using assms(2) by auto
  from leftRotate_hrep[OF 3 d3] obtain s4 where
    r4: "leftRotate (Some ga) ?s3 = Inr s4" and
    h4: "hrep s4 (Br (Br u ga Red gk pl) pa Black pk (Br l z c k r)) fs" and e4: "same_hdr ?s3 s4"
    by blast
  have "insertFixup_body (Some z) s = Inr (Some z, s4)"
    using assms(1,2,3) r4
    by (cases u) (simp_all add: hrep_def insertFixup_body_def grandparent_def is_red_def)
  moreover have "hrep s4 (Br l z c k r) (RF (Br u ga Red gk pl) pa Black pk # fs)"
    using h4 by (simp add: hrep_up)
  moreover have "same_hdr s s4"
    using e4 by (simp add: same_hdr_def)
  ultimately show ?thesis by blast
qed

lemma body_RL_rotate:
  assumes "hrep s (Br l z c k r) (LF pa pc pk pr # RF u ga gc gk # fs)"
      and "distinct (addrs (Br l z c k r) @ ctx_addrs (LF pa pc pk pr # RF u ga gc gk # fs))"
      and "col u = Black"
  shows "\<exists>s'. insertFixup_body (Some z) s = Inr (Some pa, s') \<and>
           hrep s' (Br r pa pc pk pr) (RF (Br u ga Red gk l) z Black k # fs) \<and>
           same_hdr s s'"
proof -
  let ?g = "RF u ga gc gk"
  have 1: "hrep s (Br (Br l z c k r) pa pc pk pr) (?g # fs)"
    using assms(1) by (simp add: hrep_up)
  have d1: "distinct (addrs (Br (Br l z c k r) pa pc pk pr) @ ctx_addrs (?g # fs))"
    using assms(2) by auto
  from rightRotate_hrep[OF 1 d1] obtain s1 where
    r1: "rightRotate (Some pa) s = Inr s1" and
    h1: "hrep s1 (Br l z c k (Br r pa pc pk pr)) (?g # fs)" and e1: "same_hdr s s1"
    by blast
  let ?s3 = "set_color ga Red (set_color z Black s1)"
  have 3: "hrep ?s3 (Br u ga Red gk (Br l z Black k (Br r pa pc pk pr))) fs"
    using h1 d1 by (simp add: hrep_def)
  have d3: "distinct (addrs (Br u ga Red gk (Br l z Black k (Br r pa pc pk pr))) @ ctx_addrs fs)"
    using assms(2) by auto
  from leftRotate_hrep[OF 3 d3] obtain s4 where
    r4: "leftRotate (Some ga) ?s3 = Inr s4" and
    h4: "hrep s4 (Br (Br u ga Red gk l) z Black k (Br r pa pc pk pr)) fs" and e4: "same_hdr ?s3 s4"
    by blast
  have "insertFixup_body (Some z) s = Inr (Some pa, s4)"
    using assms(1,2,3) r1 h1 r4
    by (cases u) (simp_all add: hrep_def insertFixup_body_def grandparent_def is_red_def)
  moreover have "hrep s4 (Br r pa pc pk pr) (RF (Br u ga Red gk l) z Black k # fs)"
    using h4 by (simp add: hrep_up)
  moreover have "same_hdr s s4"
    using e1 e4 by (simp add: same_hdr_def)
  ultimately show ?thesis by blast
qed

lemma col_cases [case_names Leaf Black Red]:
  "(t = Leaf \<Longrightarrow> P) \<Longrightarrow> (\<And>l a k r. t = Br l a Black k r \<Longrightarrow> P) \<Longrightarrow>
   (\<And>l a k r. t = Br l a Red k r \<Longrightarrow> P) \<Longrightarrow> P"
proof (cases t)
  case (Br l a c k r)
  assume "\<And>l a k r. t = Br l a Black k r \<Longrightarrow> P" "\<And>l a k r. t = Br l a Red k r \<Longrightarrow> P"
  with Br show P by (cases c) auto
qed auto

lemma insertFixup_body_hrep:
  assumes "hrep s (Br l z c k r) (f # g # fs)"
      and "distinct (addrs (Br l z c k r) @ ctx_addrs (f # g # fs))"
      and "ins_step (Br l z c k r) f g fs = (t', fs')"
  shows "\<exists>s'. insertFixup_body (Some z) s = Inr (ptr t', s') \<and> hrep s' t' fs' \<and> same_hdr s s'"
proof (cases g)
  case g: (LF ga gc gk u)
  show ?thesis
  proof (cases u rule: col_cases)
    case u: (Red ul ua uk ur)
    from body_LL_recolor[OF assms(1,2)[unfolded g u]] assms(3) show ?thesis
      by (auto simp: g u ins_step_def)
  next
    case u: Leaf
    show ?thesis
    proof (cases f)
      case f: (LF pa pc pk pr)
      from body_LL_rotate[OF assms(1,2)[unfolded g f]] assms(3) show ?thesis
        by (auto simp: g f u ins_step_def)
    next
      case f: (RF pl pa pc pk)
      from body_LR_rotate[OF assms(1,2)[unfolded g f]] assms(3) show ?thesis
        by (auto simp: g f u ins_step_def)
    qed
  next
    case u: (Black ul ua uk ur)
    show ?thesis
    proof (cases f)
      case f: (LF pa pc pk pr)
      from body_LL_rotate[OF assms(1,2)[unfolded g f]] assms(3) show ?thesis
        by (auto simp: g f u ins_step_def)
    next
      case f: (RF pl pa pc pk)
      from body_LR_rotate[OF assms(1,2)[unfolded g f]] assms(3) show ?thesis
        by (auto simp: g f u ins_step_def)
    qed
  qed
next
  case g: (RF u ga gc gk)
  show ?thesis
  proof (cases u rule: col_cases)
    case u: (Red ul ua uk ur)
    from body_RR_recolor[OF assms(1,2)[unfolded g u]] assms(3) show ?thesis
      by (auto simp: g u ins_step_def)
  next
    case u: Leaf
    show ?thesis
    proof (cases f)
      case f: (LF pa pc pk pr)
      from body_RL_rotate[OF assms(1,2)[unfolded g f]] assms(3) show ?thesis
        by (auto simp: g f u ins_step_def)
    next
      case f: (RF pl pa pc pk)
      from body_RR_rotate[OF assms(1,2)[unfolded g f]] assms(3) show ?thesis
        by (auto simp: g f u ins_step_def)
    qed
  next
    case u: (Black ul ua uk ur)
    show ?thesis
    proof (cases f)
      case f: (LF pa pc pk pr)
      from body_RL_rotate[OF assms(1,2)[unfolded g f]] assms(3) show ?thesis
        by (auto simp: g f u ins_step_def)
    next
      case f: (RF pl pa pc pk)
      from body_RR_rotate[OF assms(1,2)[unfolded g f]] assms(3) show ?thesis
        by (auto simp: g f u ins_step_def)
    qed
  qed
qed


lemma addrs_plug1 [simp]:
  "set (addrs (plug1 t f)) = set (addrs t) \<union> set (frame_addrs f)"
  "distinct (addrs (plug1 t f)) = distinct (addrs t @ frame_addrs f)"
  by (cases f; auto)+

lemma paint_frame_simps [simp]:
  "frame_addrs (paint_frame c f) = frame_addrs f"
  "faddr (paint_frame c f) = faddr f"
  "fcol (paint_frame c f) = c"
  by (cases f; simp)+

lemma paint_simps [simp]:
  "addrs (paint c t) = addrs t"
  "ptr (paint c t) = ptr t"
  "inorder (paint c t) = inorder t"
  "paint c t = Leaf \<longleftrightarrow> t = Leaf"
  by (cases t; simp)+

lemma inorder_plug1_paint [simp]: "inorder (plug1 t (paint_frame c f)) = inorder (plug1 t f)"
  by (cases f) simp_all


lemma inorder_plug: "inorder (plug t fs) = ctx_before fs @ inorder t @ ctx_after fs"
proof (induction fs arbitrary: t)
  case (Cons f fs)
  then show ?case by (cases f) auto
qed simp

lemma hrep_plug: "hrep s t fs = hrep s (plug t fs) []"
  by (induction fs arbitrary: t) (simp_all add: hrep_up)

lemma ins_step_nonleaf: "ins_step t f g fs = (t', fs') \<Longrightarrow> t \<noteq> Leaf \<Longrightarrow> t' \<noteq> Leaf"
  by (auto simp: ins_step_def split: frame.splits tree.splits if_splits)

lemma ins_step_distinct:
  "ins_step t f g fs = (t', fs') \<Longrightarrow> distinct (addrs t @ ctx_addrs (f # g # fs)) \<Longrightarrow>
   distinct (addrs t' @ ctx_addrs fs')"
  by (auto simp: ins_step_def split: frame.splits tree.splits if_splits)

lemma ins_step_set:
  "ins_step t f g fs = (t', fs') \<Longrightarrow> t \<noteq> Leaf \<Longrightarrow>
   set (addrs t' @ ctx_addrs fs') = set (addrs t @ ctx_addrs (f # g # fs))"
  by (auto simp: ins_step_def split: frame.splits tree.splits if_splits)

lemma ins_step_inorder:
  "ins_step t f g fs = (t', fs') \<Longrightarrow> t \<noteq> Leaf \<Longrightarrow>
   inorder (plug t' fs') = inorder (plug t (f # g # fs))"
  by (auto simp: ins_step_def inorder_plug split: frame.splits tree.splits if_splits)

lemma final_black:
  assumes "hrep s T []" "distinct (addrs T)" "T \<noteq> Leaf"
  shows "\<exists>s'. wr set_color (root s) Black s = Inr s' \<and> hrep s' (paint Black T) [] \<and> same_hdr s s'"
  using assms by (cases T) (auto simp: hrep_def same_hdr_def)

lemma insertFixup_cond_hrep:
  assumes "hrep s (Br l z c k r) fs"
  shows "insertFixup_cond (Some z) s = Inr (case fs of [] \<Rightarrow> False | f # _ \<Rightarrow> fcol f = Red)"
  using assms
  by (cases fs rule: ctx_cases) (auto simp: hrep_def insertFixup_cond_def is_red_def)

lemma same_hdr_trans: "same_hdr s s1 \<Longrightarrow> same_hdr s1 s2 \<Longrightarrow> same_hdr s s2"
  by (simp add: same_hdr_def)

lemma plug_not_Leaf [simp]: "plug1 t f \<noteq> Leaf" "t \<noteq> Leaf \<Longrightarrow> plug t fs \<noteq> Leaf"
proof -
  show 1: "plug1 t f \<noteq> Leaf" for t :: "'a tree" and f by (cases f) simp_all
  show "t \<noteq> Leaf \<Longrightarrow> plug t fs \<noteq> Leaf"
    by (induction fs arbitrary: t) (simp_all add: 1)
qed

lemma insertFixup_exit:
  "insertFixup_cond z s = Inr False \<Longrightarrow> insertFixup z s = Some (wr set_color (root s) Black s)"
  by (subst insertFixup.simps) simp

lemma insertFixup_step:
  "insertFixup_cond z s = Inr True \<Longrightarrow> insertFixup_body z s = Inr (z', s') \<Longrightarrow>
   insertFixup z s = insertFixup z' s'"
  by (subst insertFixup.simps) simp

lemma insertFixup_hrep:
  "hrep s t fs \<Longrightarrow> distinct (addrs t @ ctx_addrs fs) \<Longrightarrow> t \<noteq> Leaf \<Longrightarrow> ins_fix t fs = Some T \<Longrightarrow>
   \<exists>s'. insertFixup (ptr t) s = Some (Inr s') \<and> hrep s' T [] \<and> same_hdr s s'"
proof (induction t fs arbitrary: s rule: ins_fix.induct)
  case (1 t)
  then obtain l z c k r where t: "t = Br l z c k r" by (cases t) auto
  have "insertFixup (ptr t) s = Some (wr set_color (root s) Black s)"
    using insertFixup_cond_hrep[OF 1(1)[unfolded t]] by (simp add: t insertFixup_exit)
  moreover have "distinct (addrs t)" using 1(2) by simp
  ultimately show ?case
    using 1 final_black[of s t] by auto
next
  case (2 t f)
  then obtain l z c k r where t: "t = Br l z c k r" by (cases t) auto
  from 2 have c: "fcol f \<noteq> Red" and T: "T = paint Black (plug1 t f)" by (auto split: if_splits)
  have h: "hrep s (plug1 t f) []" using 2(1) by (simp add: hrep_up)
  have d: "distinct (addrs (plug1 t f))" using 2(2) by simp
  have "insertFixup (ptr t) s = Some (wr set_color (root s) Black s)"
    using insertFixup_cond_hrep[OF 2(1)[unfolded t]] c by (simp add: t insertFixup_exit)
  with final_black[OF h d] T show ?case by auto
next
  case (3 t f g fs)
  then obtain l z c k r where t: "t = Br l z c k r" by (cases t) auto
  show ?case
  proof (cases "fcol f = Red")
    case False
    with 3(5) have T: "T = paint Black (plug t (f # g # fs))" by simp
    have h: "hrep s (plug t (f # g # fs)) []" using 3(2) by (subst (asm) hrep_plug)
    have d: "distinct (addrs (plug t (f # g # fs)))" using 3(3) by (simp only: distinct_addrs_plug)
    have n: "plug t (f # g # fs) \<noteq> Leaf" using 3(4) by (rule plug_not_Leaf)
    have "insertFixup (ptr t) s = Some (wr set_color (root s) Black s)"
      using insertFixup_cond_hrep[OF 3(2)[unfolded t]] False by (simp add: t insertFixup_exit)
    with final_black[OF h d n] T show ?thesis by auto
  next
    case True
    obtain t' fs' where st: "ins_step t f g fs = (t', fs')" by (cases "ins_step t f g fs")
    from insertFixup_body_hrep[OF 3(2,3)[unfolded t] st[unfolded t]] obtain s1 where
      b: "insertFixup_body (Some z) s = Inr (ptr t', s1)" and h1: "hrep s1 t' fs'" and e1: "same_hdr s s1"
      by blast
    have d1: "distinct (addrs t' @ ctx_addrs fs')" using ins_step_distinct[OF st 3(3)] .
    have n1: "t' \<noteq> Leaf" using ins_step_nonleaf[OF st 3(4)] .
    have f1: "ins_fix t' fs' = Some T" using 3(5) True st by simp
    from "3.IH"[OF True st[symmetric] h1 d1 n1 f1] obtain s' where
      r: "insertFixup (ptr t') s1 = Some (Inr s')" "hrep s' T []" "same_hdr s1 s'" by blast
    have "insertFixup (ptr t) s = insertFixup (ptr t') s1"
      using insertFixup_cond_hrep[OF 3(2)[unfolded t]] True b
      by (simp add: t insertFixup_step)
    with r e1 show ?thesis by (auto intro: same_hdr_trans)
  qed
qed


lemma abs_set_hrep:
  "abs_set s T = (hrep s T [] \<and> distinct (addrs T) \<and> (\<forall>a\<in>set (addrs T). a < fresh s))"
  by (auto simp: abs_set_def hrep_def)

lemma Insert_descend_hrep:
  "hrep s t fs \<Longrightarrow>
   Insert_descend k (ptr t) (hole_parent fs) s =
     Some (case descend (compare s) k t fs of None \<Rightarrow> Duplicate | Some fs' \<Rightarrow> Slot (hole_parent fs'))"
proof (induction t arbitrary: fs)
  case Leaf
  show ?case by (subst Insert_descend.simps) simp
next
  case (Br l a c x r)
  have hl: "hrep s l (LF a c x r # fs)" and hr: "hrep s r (RF l a c x # fs)"
    using Br.prems by (simp_all add: hrep_up)
  have kx: "key (nodes s a) = x" "left (nodes s a) = ptr l" "right (nodes s a) = ptr r"
    using Br.prems by (simp_all add: hrep_def)
  show ?case
    using Br.IH(1)[OF hl] Br.IH(2)[OF hr]
    by (subst Insert_descend.simps) (simp add: kx Let_def)
qed

lemma descend_plug: "descend cmp k t fs = Some fs' \<Longrightarrow> plug Leaf fs' = plug t fs"
  by (induction t arbitrary: fs) (auto split: if_splits)

lemma descend_slot_ok:
  "descend cmp k t fs = Some fs' \<Longrightarrow> slot_ok cmp k fs \<Longrightarrow> slot_ok cmp k fs'"
  by (induction t arbitrary: fs) (auto split: if_splits)

lemma descend_nonempty:
  "descend cmp k t fs = Some fs' \<Longrightarrow> t \<noteq> Leaf \<or> fs \<noteq> [] \<Longrightarrow> fs' \<noteq> []"
  by (induction t arbitrary: fs) (auto split: if_splits)

lemma hrep_size_upd [simp]: "hrep (s\<lparr>size_s := n\<rparr>) t fs = hrep s t fs"
  by (simp add: hrep_def)

lemma Insert_attach_hrep:
  assumes "hrep s Leaf (f # fs)" "distinct (ctx_addrs (f # fs))"
      and "\<forall>a\<in>set (ctx_addrs (f # fs)). a < fresh s" "slot_ok (compare s) k (f # fs)"
  shows "\<exists>s2. Insert_attach k (hole_parent (f # fs)) s = Inr (fresh s, s2) \<and>
          hrep s2 (Br Leaf (fresh s) Red k Leaf) (f # fs) \<and>
          fresh s2 = Suc (fresh s) \<and> size_s s2 = size_s s \<and> compare s2 = compare s"
proof -
  have nf: "fresh s \<notin> set (ctx_addrs (f # fs))" using assms(3) by auto
  show ?thesis
  proof (cases f)
    case (LF p c x r)
    with assms nf show ?thesis
      by (simp add: Insert_attach_def alloc_def hrep_def set_left_def)
  next
    case (RF l p c x)
    with assms nf show ?thesis
      by (simp add: Insert_attach_def alloc_def hrep_def set_right_def)
  qed
qed

lemma ins_fix_addrs:
  "ins_fix t fs = Some T \<Longrightarrow> t \<noteq> Leaf \<Longrightarrow> distinct (addrs t @ ctx_addrs fs) \<Longrightarrow>
   distinct (addrs T) \<and> set (addrs T) = set (addrs t @ ctx_addrs fs)"
proof (induction t fs rule: ins_fix.induct)
  case (1 t)
  then show ?case by auto
next
  case (2 t f)
  then show ?case by (auto split: if_splits)
next
  case (3 t f g fs)
  show ?case
  proof (cases "fcol f = Red")
    case False
    with 3(2) have "T = paint Black (plug t (f # g # fs))" by simp
    then show ?thesis
      using 3(4) distinct_addrs_plug[of t "f # g # fs"] set_addrs_plug[of t "f # g # fs"]
      by simp
  next
    case True
    obtain t' fs' where st: "ins_step t f g fs = (t', fs')" by (cases "ins_step t f g fs")
    have "distinct (addrs T) \<and> set (addrs T) = set (addrs t' @ ctx_addrs fs')"
      using "3.IH"[OF True st[symmetric]] 3(2) True st ins_step_nonleaf[OF st 3(3)]
        ins_step_distinct[OF st 3(4)] by simp
    then show ?thesis using ins_step_set[OF st 3(3)] by simp
  qed
qed

lemma ins_fix_inorder:
  "ins_fix t fs = Some T \<Longrightarrow> t \<noteq> Leaf \<Longrightarrow> inorder T = inorder (plug t fs)"
proof (induction t fs rule: ins_fix.induct)
  case (1 t)
  then show ?case by auto
next
  case (2 t f)
  then show ?case by (auto split: if_splits)
next
  case (3 t f g fs)
  show ?case
  proof (cases "fcol f = Red")
    case False
    with 3(2) show ?thesis by auto
  next
    case True
    obtain t' fs' where st: "ins_step t f g fs = (t', fs')" by (cases "ins_step t f g fs")
    have "inorder T = inorder (plug t' fs')"
      using "3.IH"[OF True st[symmetric]] 3(2) True st ins_step_nonleaf[OF st 3(3)] by simp
    then show ?thesis using ins_step_inorder[OF st 3(3)] by simp
  qed
qed

lemma ins_fix_black: "ins_fix t fs = Some T \<Longrightarrow> t \<noteq> Leaf \<Longrightarrow> col T = Black \<and> T \<noteq> Leaf"
proof (induction t fs rule: ins_fix.induct)
  case (1 t)
  then show ?case by (cases t) auto
next
  case (2 t f)
  then show ?case by (cases f) (auto split: if_splits)
next
  case (3 t f g fs)
  show ?case
  proof (cases "fcol f = Red")
    case False
    have "plug t (f # g # fs) \<noteq> Leaf" using 3(3) by simp
    with 3(2) False show ?thesis by (cases "plug t (f # g # fs)") auto
  next
    case True
    obtain t' fs' where st: "ins_step t f g fs = (t', fs')" by (cases "ins_step t f g fs")
    show ?thesis
      using "3.IH"[OF True st[symmetric]] 3(2) True st ins_step_nonleaf[OF st 3(3)] by simp
  qed
qed

lemma Insert_abs:
  assumes "abs_set s T" "ins_tree (compare s) k (fresh s) T = Some (b, T')"
  shows "\<exists>s'. Insert k s = Some (Inr (b, s')) \<and> abs_set s' T' \<and> compare s' = compare s \<and>
           size_s s' = size_s s + (if b then 1 else 0) \<and> (\<not> b \<longrightarrow> s' = s)"
proof (cases "T = Leaf")
  case True
  with assms show ?thesis
    by (auto simp: abs_set_def ins_tree_def Insert_def alloc_def)
next
  case False
  from assms(1) have h: "hrep s T []" and d: "distinct (addrs T)"
    and bd: "\<forall>a\<in>set (addrs T). a < fresh s"
    by (simp_all add: abs_set_hrep)
  from h False have rt: "root s = ptr T" "root s \<noteq> None"
    by (cases T; simp add: hrep_def)+
  note D = Insert_descend_hrep[OF h, of k, simplified, folded rt(1)]
  show ?thesis
  proof (cases "descend (compare s) k T []")
    case None
    with assms False D rt show ?thesis
      by (auto simp: ins_tree_def Insert_def)
  next
    case (Some fs)
    from descend_nonempty[OF Some] False obtain f fs0 where fs: "fs = f # fs0"
      by (cases fs) auto
    have pl: "plug Leaf fs = T" using descend_plug[OF Some] by simp
    have h0: "hrep s Leaf (f # fs0)" using h pl fs hrep_plug[of s Leaf fs] by simp
    have d0: "distinct (ctx_addrs (f # fs0))"
      using d pl fs distinct_addrs_plug[of Leaf fs] by simp
    have b0: "\<forall>a\<in>set (ctx_addrs (f # fs0)). a < fresh s"
      using bd pl fs set_addrs_plug[of Leaf fs] by simp
    have sl: "slot_ok (compare s) k (f # fs0)"
      using descend_slot_ok[OF Some] fs by simp
    from Insert_attach_hrep[OF h0 d0 b0 sl] obtain s2 where
      at: "Insert_attach k (hole_parent (f # fs0)) s = Inr (fresh s, s2)" and
      h2: "hrep s2 (Br Leaf (fresh s) Red k Leaf) (f # fs0)" and
      e2: "fresh s2 = Suc (fresh s)" "size_s s2 = size_s s" "compare s2 = compare s"
      by blast
    from assms(2) False Some fs have fx: "ins_fix (Br Leaf (fresh s) Red k Leaf) (f # fs0) = Some T'"
      and b: "b" by (auto simp: ins_tree_def)
    let ?s2 = "s2\<lparr>size_s := size_s s2 + 1\<rparr>"
    have h2': "hrep ?s2 (Br Leaf (fresh s) Red k Leaf) (f # fs0)" using h2 by simp
    have d2: "distinct (addrs (Br Leaf (fresh s) Red k Leaf) @ ctx_addrs (f # fs0))"
      using d0 b0 by auto
    from insertFixup_hrep[OF h2' d2 _ fx] obtain s3 where
      r3: "insertFixup (Some (fresh s)) ?s2 = Some (Inr s3)" and h3: "hrep s3 T' []"
      and e3: "same_hdr ?s2 s3" by auto
    from ins_fix_addrs[OF fx _ d2] have a3: "distinct (addrs T')"
      "set (addrs T') = insert (fresh s) (set (ctx_addrs (f # fs0)))" by auto
    have "abs_set s3 T'"
      using h3 a3 b0 e2 e3 by (auto simp: abs_set_hrep same_hdr_def less_Suc_eq)
    moreover have "Insert k s = Some (Inr (True, s3))"
      using D Some fs at r3 rt by (auto simp: Insert_def)
    ultimately show ?thesis
      using b e2 e3 by (auto simp: same_hdr_def)
  qed
qed

section \<open>Insertion and lookup on sorted trees\<close>

lemma cmp_okD:
  assumes "cmp_ok cmp"
  shows "cmp a b < 0 \<Longrightarrow> cmp b c < 0 \<Longrightarrow> cmp a c < 0"
    and "cmp a b = 0 \<Longrightarrow> cmp b c < 0 \<Longrightarrow> cmp a c < 0"
    and "cmp a b < 0 \<Longrightarrow> cmp b c = 0 \<Longrightarrow> cmp a c < 0"
    and "(0 < cmp b a) = (cmp a b < 0)"
    and "cmp a a = 0"
    and "(cmp b a = 0) = (cmp a b = 0)"
  using assms unfolding cmp_ok_def
  by (blast, blast, blast, simp, smt (verit), smt (verit))

lemma ascending_append:
  "ascending cmp (xs @ ys) = (ascending cmp xs \<and> ascending cmp ys \<and>
     (\<forall>x\<in>set xs. \<forall>y\<in>set ys. cmp x y < 0))"
  by (simp add: ascending_def sorted_wrt_append)

lemma ascending_Cons:
  "ascending cmp (x # ys) = ((\<forall>y\<in>set ys. cmp x y < 0) \<and> ascending cmp ys)"
  by (simp add: ascending_def)

lemma ascending_Nil [simp]: "ascending cmp []"
  by (simp add: ascending_def)

lemma descend_between:
  assumes "cmp_ok cmp"
  shows "descend cmp k t fs = Some fs' \<Longrightarrow> ascending cmp (inorder t) \<Longrightarrow> between cmp k fs \<Longrightarrow>
         between cmp k fs'"
proof (induction t arbitrary: fs)
  case Leaf
  then show ?case by simp
next
  case (Br l a c x r)
  from Br.prems(2) have al: "ascending cmp (inorder l)" and ar: "ascending cmp (inorder r)"
    and lx: "\<forall>y\<in>set (inorder l). cmp y x < 0" and xr: "\<forall>y\<in>set (inorder r). cmp x y < 0"
    by (auto simp: ascending_append ascending_Cons)
  show ?case
  proof (cases "cmp k x < 0")
    case True
    then have "between cmp k (LF a c x r # fs)"
      using Br.prems(3) xr cmp_okD(1)[OF assms] by (auto simp: between_def)
    with Br True al show ?thesis by (auto split: if_splits)
  next
    case False
    with Br.prems(1) have n0: "cmp k x \<noteq> 0" by (auto split: if_splits)
    with False have xk: "cmp x k < 0" using cmp_okD(4)[OF assms, of k x] by simp
    then have "between cmp k (RF l a c x # fs)"
      using Br.prems(3) lx cmp_okD(1)[OF assms] by (auto simp: between_def)
    with Br False n0 ar show ?thesis by (auto split: if_splits)
  qed
qed

lemma descend_None_has:
  "descend cmp k t fs = None \<Longrightarrow> has_key cmp k (inorder t)"
  by (induction t arbitrary: fs) (auto simp: has_key_def split: if_splits)

lemma between_no_key:
  assumes "cmp_ok cmp" "between cmp k fs"
  shows "\<not> has_key cmp k (ctx_before fs @ ctx_after fs)"
  using assms cmp_okD(4)[OF assms(1)]
  by (auto simp: between_def has_key_def) (metis less_irrefl)+


lemma col_plug1 [simp]: "col (plug1 t f) = fcol f"
  by (cases f) simp_all

lemma col_plug: "fs \<noteq> [] \<Longrightarrow> col (plug t fs) = fcol (last fs)"
  by (induction fs arbitrary: t) auto

lemma ins_step_last:
  "ins_step t f g fs = (t', fs') \<Longrightarrow> fcol (last (g # fs)) = Black \<Longrightarrow>
   fs' = [] \<or> fcol (last fs') = Black"
  by (auto simp: ins_step_def split: frame.splits tree.splits if_splits)

lemma ins_fix_total:
  "fs = [] \<or> fcol (last fs) = Black \<Longrightarrow> \<exists>T. ins_fix t fs = Some T"
proof (induction t fs rule: ins_fix.induct)
  case (3 t f g fs)
  show ?case
  proof (cases "fcol f = Red")
    case True
    obtain t' fs' where st: "ins_step t f g fs = (t', fs')" by (cases "ins_step t f g fs")
    from 3(2) have "fcol (last (g # fs)) = Black" by simp
    from "3.IH"[OF True st[symmetric] ins_step_last[OF st this]] True st show ?thesis by simp
  qed simp
qed auto

lemma ascending_insert_between:
  assumes "ascending cmp (ctx_before fs @ ctx_after fs)" "between cmp k fs"
  shows "ascending cmp (ctx_before fs @ k # ctx_after fs)"
  using assms by (auto simp: ascending_append ascending_Cons between_def)

lemma has_key_cong: "set xs = set ys \<Longrightarrow> has_key cmp k xs = has_key cmp k ys"
  by (simp add: has_key_def)

lemma ins_tree_total:
  assumes "cmp_ok cmp" "ascending cmp (inorder T)" "col T = Black"
  shows "\<exists>T'. ins_tree cmp k a T = Some (\<not> has_key cmp k (inorder T), T') \<and>
           col T' = Black \<and> T' \<noteq> Leaf \<and> ascending cmp (inorder T') \<and>
           (has_key cmp k (inorder T) \<longrightarrow> T' = T) \<and>
           (\<not> has_key cmp k (inorder T) \<longrightarrow> set (inorder T') = insert k (set (inorder T)) \<and>
               length (inorder T') = Suc (length (inorder T)))"
proof (cases "T = Leaf")
  case True
  then show ?thesis by (simp add: ins_tree_def has_key_def ascending_def)
next
  case False
  show ?thesis
  proof (cases "descend cmp k T []")
    case None
    with False assms descend_None_has[OF None] show ?thesis
      by (simp add: ins_tree_def)
  next
    case (Some fs)
    have bt: "between cmp k fs"
      using descend_between[OF assms(1) Some assms(2)] by (simp add: between_def)
    have pl: "plug Leaf fs = T" using descend_plug[OF Some] by simp
    then have io: "inorder T = ctx_before fs @ ctx_after fs"
      using inorder_plug[of Leaf fs] by simp
    have nk: "\<not> has_key cmp k (inorder T)" using between_no_key[OF assms(1) bt] io by simp
    from descend_nonempty[OF Some] False have ne: "fs \<noteq> []" by simp
    with assms(3) pl col_plug[of fs Leaf] have "fcol (last fs) = Black" by simp
    from ins_fix_total[of fs "Br Leaf a Red k Leaf"] this obtain T' where
      fx: "ins_fix (Br Leaf a Red k Leaf) fs = Some T'" by auto
    have io': "inorder T' = ctx_before fs @ k # ctx_after fs"
      using ins_fix_inorder[OF fx] by (simp add: inorder_plug)
    have "ascending cmp (inorder T')"
      using ascending_insert_between[OF _ bt] assms(2) io io' by simp
    with fx False Some nk io io' ins_fix_black[OF fx] show ?thesis
      by (auto simp: ins_tree_def)
  qed
qed

lemma Contains_loop_rep:
  assumes "cmp_ok (compare s)"
  shows "rep (nodes s) par t \<Longrightarrow> ascending (compare s) (inorder t) \<Longrightarrow>
         Contains_loop k (ptr t) s = Some (has_key (compare s) k (inorder t))"
proof (induction t arbitrary: par)
  case Leaf
  show ?case by (subst Contains_loop.simps) (simp add: has_key_def)
next
  case (Br l a c x r)
  from Br.prems(2) have al: "ascending (compare s) (inorder l)"
    and ar: "ascending (compare s) (inorder r)"
    and lx: "\<forall>y\<in>set (inorder l). compare s y x < 0" and xr: "\<forall>y\<in>set (inorder r). compare s x y < 0"
    by (auto simp: ascending_append ascending_Cons)
  from Br.prems(1) have f: "key (nodes s a) = x" "left (nodes s a) = ptr l" "right (nodes s a) = ptr r"
    and rl: "rep (nodes s) (Some a) l" and rr: "rep (nodes s) (Some a) r" by simp_all
  note IH = Br.IH(1)[OF rl al] Br.IH(2)[OF rr ar]
  note C = cmp_okD[OF assms]
  show ?case
  proof (cases "compare s k x = 0")
    case True
    then show ?thesis by (subst Contains_loop.simps) (simp add: f has_key_def)
  next
    case n0: False
    show ?thesis
    proof (cases "compare s k x < 0")
      case True
      have "\<not> has_key (compare s) k (inorder r)"
        using True xr C(1)[of k x] by (fastforce simp: has_key_def)
      with True n0 IH show ?thesis
        by (subst Contains_loop.simps) (auto simp: f has_key_def)
    next
      case False
      with n0 have xk: "compare s x k < 0" using C(4)[of k x] by simp
      have "\<not> has_key (compare s) k (inorder l)"
      proof
        assume "has_key (compare s) k (inorder l)"
        then obtain y where y: "y \<in> set (inorder l)" "compare s k y = 0" by (auto simp: has_key_def)
        with lx have "compare s y x < 0" by simp
        with y(2) have "compare s k x < 0" using C(2) by blast
        with False show False by simp
      qed
      with False n0 IH show ?thesis
        by (subst Contains_loop.simps) (auto simp: f has_key_def)
    qed
  qed
qed

lemma cmp_ok_int_compare: "cmp_ok int_compare"
  by (auto simp: cmp_ok_def int_compare_def)

lemma abs_set_one_set: "abs_set one_set one_tree"
  by (simp add: abs_set_def one_set_def one_tree_def)

lemma Contains_abs:
  assumes "abs_set s T" "ascending (compare s) (inorder T)" "cmp_ok (compare s)"
  shows "Contains k s = Some (Inr (has_key (compare s) k (inorder T), s))"
  using assms Contains_loop_rep[OF assms(3), of None T k]
  by (simp add: Contains_def abs_set_def)

section \<open>Traversal of the store\<close>

lemma minimum_hrep:
  "hrep s t fs \<Longrightarrow> t \<noteq> Leaf \<Longrightarrow> minimum (ptr t) s = Some (Inr (ptr (fst (dmin t fs))))"
proof (induction t fs rule: dmin.induct)
  case (1 a c k r fs)
  then show ?case by (subst minimum.simps) (simp add: hrep_def)
next
  case (2 ll la lc lk lr a c k r fs)
  have "hrep s (Br ll la lc lk lr) (LF a c k r # fs)" using 2(2) by (simp add: hrep_up)
  from 2(1)[OF this] 2(2) show ?case by (subst minimum.simps) (simp add: hrep_def)
qed simp

lemma maximum_hrep:
  "hrep s t fs \<Longrightarrow> t \<noteq> Leaf \<Longrightarrow> maximum (ptr t) s = Some (Inr (ptr (fst (dmax t fs))))"
proof (induction t fs rule: dmax.induct)
  case (1 l a c k fs)
  then show ?case by (subst maximum.simps) (simp add: hrep_def)
next
  case (2 l a c k rl ra rc rk rr fs)
  have "hrep s (Br rl ra rc rk rr) (RF l a c k # fs)" using 2(2) by (simp add: hrep_up)
  from 2(1)[OF this] 2(2) show ?case by (subst maximum.simps) (simp add: hrep_def)
qed simp

lemma dmin_props:
  "dmin t fs = (t', fs') \<Longrightarrow> t \<noteq> Leaf \<Longrightarrow>
   (\<exists>a c k r. t' = Br Leaf a c k r) \<and> plug t' fs' = plug t fs \<and>
   ctx_before fs' = ctx_before fs \<and> inorder t' @ ctx_after fs' = inorder t @ ctx_after fs"
  by (induction t fs rule: dmin.induct) auto

lemma dmax_props:
  "dmax t fs = (t', fs') \<Longrightarrow> t \<noteq> Leaf \<Longrightarrow>
   (\<exists>l a c k. t' = Br l a c k Leaf) \<and> plug t' fs' = plug t fs \<and>
   ctx_after fs' = ctx_after fs \<and> ctx_before fs' @ inorder t' = ctx_before fs @ inorder t"
  by (induction t fs rule: dmax.induct) auto

lemma successor_up_hrep:
  "hrep s t fs \<Longrightarrow> distinct (addrs t @ ctx_addrs fs) \<Longrightarrow> t \<noteq> Leaf \<Longrightarrow>
   successor_up (ptr t) (hole_parent fs) s =
     Some (Inr (case up_succ t fs of None \<Rightarrow> None | Some (t', fs') \<Rightarrow> ptr t'))"
proof (induction t fs rule: up_succ.induct)
  case (1 t)
  show ?case by (subst successor_up.simps) simp
next
  case (2 t a c k r fs)
  then show ?case
    by (subst successor_up.simps) (cases t; auto simp: hrep_def)
next
  case (3 t l a c k fs)
  have h: "hrep s (Br l a c k t) fs" using 3(2) by (simp add: hrep_up)
  have d: "distinct (addrs (Br l a c k t) @ ctx_addrs fs)" using 3(3) by auto
  from 3(1)[OF h d] 3(2) show ?case
    by (subst successor_up.simps) (cases fs rule: ctx_cases; auto simp: hrep_def)
qed

lemma predecessor_up_hrep:
  "hrep s t fs \<Longrightarrow> distinct (addrs t @ ctx_addrs fs) \<Longrightarrow> t \<noteq> Leaf \<Longrightarrow>
   predecessor_up (ptr t) (hole_parent fs) s =
     Some (Inr (case up_pred t fs of None \<Rightarrow> None | Some (t', fs') \<Rightarrow> ptr t'))"
proof (induction t fs rule: up_pred.induct)
  case (1 t)
  show ?case by (subst predecessor_up.simps) simp
next
  case (2 t l a c k fs)
  then show ?case
    by (subst predecessor_up.simps) (cases t; auto simp: hrep_def)
next
  case (3 t a c k r fs)
  have h: "hrep s (Br t a c k r) fs" using 3(2) by (simp add: hrep_up)
  have d: "distinct (addrs (Br t a c k r) @ ctx_addrs fs)" using 3(3) by auto
  from 3(1)[OF h d] 3(2) show ?case
    by (subst predecessor_up.simps) (cases fs rule: ctx_cases; auto simp: hrep_def)
qed

lemma up_succ_props:
  "up_succ t fs = Some (t', fs') \<Longrightarrow> plug t' fs' = plug t fs \<and> t' \<noteq> Leaf \<and>
     suffix_keys t' fs' = ctx_after fs"
  "up_succ t fs = None \<Longrightarrow> ctx_after fs = []"
  by (induction t fs rule: up_succ.induct) auto

lemma up_pred_props:
  "up_pred t fs = Some (t', fs') \<Longrightarrow> plug t' fs' = plug t fs \<and> t' \<noteq> Leaf \<and>
     prefix_keys t' fs' = ctx_before fs"
  "up_pred t fs = None \<Longrightarrow> ctx_before fs = []"
  by (induction t fs rule: up_pred.induct) auto

lemma znext_props:
  "znext (Br l a c k r) fs = Some (t', fs') \<Longrightarrow>
     plug t' fs' = plug (Br l a c k r) fs \<and> t' \<noteq> Leaf \<and>
     suffix_keys t' fs' = inorder r @ ctx_after fs"
  "znext (Br l a c k r) fs = None \<Longrightarrow> inorder r @ ctx_after fs = []"
proof -
  show "znext (Br l a c k r) fs = Some (t', fs') \<Longrightarrow>
     plug t' fs' = plug (Br l a c k r) fs \<and> t' \<noteq> Leaf \<and>
     suffix_keys t' fs' = inorder r @ ctx_after fs"
  proof (cases r)
    case Leaf
    assume "znext (Br l a c k r) fs = Some (t', fs')"
    with Leaf up_succ_props(1)[of "Br l a c k Leaf" fs t' fs'] show ?thesis by simp
  next
    case (Br rl ra rc rk rr)
    assume "znext (Br l a c k r) fs = Some (t', fs')"
    with Br have d: "dmin r (RF l a c k # fs) = (t', fs')" by simp
    from dmin_props[OF d] Br show ?thesis by auto
  qed
  show "znext (Br l a c k r) fs = None \<Longrightarrow> inorder r @ ctx_after fs = []"
    using up_succ_props(2)[of "Br l a c k Leaf" fs] by (cases r) auto
qed

lemma zprev_props:
  "zprev (Br l a c k r) fs = Some (t', fs') \<Longrightarrow>
     plug t' fs' = plug (Br l a c k r) fs \<and> t' \<noteq> Leaf \<and>
     prefix_keys t' fs' = ctx_before fs @ inorder l"
  "zprev (Br l a c k r) fs = None \<Longrightarrow> ctx_before fs @ inorder l = []"
proof -
  show "zprev (Br l a c k r) fs = Some (t', fs') \<Longrightarrow>
     plug t' fs' = plug (Br l a c k r) fs \<and> t' \<noteq> Leaf \<and>
     prefix_keys t' fs' = ctx_before fs @ inorder l"
  proof (cases l)
    case Leaf
    assume "zprev (Br l a c k r) fs = Some (t', fs')"
    with Leaf up_pred_props(1)[of "Br Leaf a c k r" fs t' fs'] show ?thesis by simp
  next
    case (Br ll la lc lk lr)
    assume "zprev (Br l a c k r) fs = Some (t', fs')"
    with Br have d: "dmax l (LF a c k r # fs) = (t', fs')" by simp
    from dmax_props[OF d] Br show ?thesis by auto
  qed
  show "zprev (Br l a c k r) fs = None \<Longrightarrow> ctx_before fs @ inorder l = []"
    using up_pred_props(2)[of "Br Leaf a c k r" fs] by (cases l) auto
qed

lemma successor_hrep:
  assumes "hrep s (Br l a c k r) fs" "distinct (addrs (Br l a c k r) @ ctx_addrs fs)"
  shows "successor (Some a) s =
     Some (Inr (case znext (Br l a c k r) fs of None \<Rightarrow> None | Some (t', fs') \<Rightarrow> ptr t'))"
proof (cases r)
  case Leaf
  with assms successor_up_hrep[OF assms(1,2)] show ?thesis
    by (simp add: successor_def hrep_def)
next
  case (Br rl ra rc rk rr)
  have "hrep s r (RF l a c k # fs)" using assms(1) by (simp add: hrep_up)
  from minimum_hrep[OF this] Br assms(1) show ?thesis
    by (simp add: successor_def hrep_def case_prod_unfold)
qed

lemma predecessor_hrep:
  assumes "hrep s (Br l a c k r) fs" "distinct (addrs (Br l a c k r) @ ctx_addrs fs)"
  shows "predecessor (Some a) s =
     Some (Inr (case zprev (Br l a c k r) fs of None \<Rightarrow> None | Some (t', fs') \<Rightarrow> ptr t'))"
proof (cases l)
  case Leaf
  with assms predecessor_up_hrep[OF assms(1,2)] show ?thesis
    by (simp add: predecessor_def hrep_def)
next
  case (Br ll la lc lk lr)
  have "hrep s l (LF a c k r # fs)" using assms(1) by (simp add: hrep_up)
  from maximum_hrep[OF this] Br assms(1) show ?thesis
    by (simp add: predecessor_def hrep_def case_prod_unfold)
qed

lemma collect_end: "collect \<lparr>node = None, reverse = d\<rparr> s acc = Some (Inr acc)"
  by (subst collect.simps) (simp add: Valid_def)

lemma hrep_refocus:
  "plug t' fs' = plug t fs \<Longrightarrow> hrep s t fs \<Longrightarrow> hrep s t' fs'"
  "plug t' fs' = plug t fs \<Longrightarrow> distinct (addrs t @ ctx_addrs fs) \<Longrightarrow> distinct (addrs t' @ ctx_addrs fs')"
  using hrep_plug[of s t fs] hrep_plug[of s t' fs'] distinct_addrs_plug[of t fs]
    distinct_addrs_plug[of t' fs'] by auto

lemma collect_forward:
  "hrep s t fs \<Longrightarrow> distinct (addrs t @ ctx_addrs fs) \<Longrightarrow> t \<noteq> Leaf \<Longrightarrow>
   collect \<lparr>node = ptr t, reverse = False\<rparr> s acc = Some (Inr (acc @ suffix_keys t fs))"
proof (induction "length (suffix_keys t fs)" arbitrary: t fs acc rule: less_induct)
  case less
  from less.prems(3) obtain l a c k r where t: "t = Br l a c k r" by (cases t) auto
  note h = less.prems(1)[unfolded t] and d = less.prems(2)[unfolded t]
  have kx: "key (nodes s a) = k" using h by (simp add: hrep_def)
  note S = successor_hrep[OF h d]
  show ?case
  proof (cases "znext (Br l a c k r) fs")
    case None
    with S znext_props(2)[OF None] kx show ?thesis
      by (subst collect.simps) (simp add: t Valid_def Value_def Next_def collect_end)
  next
    case (Some p)
    obtain t' fs' where p: "p = (t', fs')" by (cases p)
    note P = znext_props(1)[OF Some[unfolded p]]
    have h': "hrep s t' fs'" and d': "distinct (addrs t' @ ctx_addrs fs')"
      using hrep_refocus(1)[OF _ h] hrep_refocus(2)[OF _ d] P by auto
    have "length (suffix_keys t' fs') < length (suffix_keys t fs)" using P t by simp
    from less.hyps[OF this h' d'] P
    have "collect \<lparr>node = ptr t', reverse = False\<rparr> s (acc @ [k]) =
          Some (Inr ((acc @ [k]) @ suffix_keys t' fs'))" by simp
    with S Some p P kx show ?thesis
      by (subst collect.simps) (simp add: t Valid_def Value_def Next_def)
  qed
qed

lemma collect_backward:
  "hrep s t fs \<Longrightarrow> distinct (addrs t @ ctx_addrs fs) \<Longrightarrow> t \<noteq> Leaf \<Longrightarrow>
   collect \<lparr>node = ptr t, reverse = True\<rparr> s acc = Some (Inr (acc @ rev (prefix_keys t fs)))"
proof (induction "length (prefix_keys t fs)" arbitrary: t fs acc rule: less_induct)
  case less
  from less.prems(3) obtain l a c k r where t: "t = Br l a c k r" by (cases t) auto
  note h = less.prems(1)[unfolded t] and d = less.prems(2)[unfolded t]
  have kx: "key (nodes s a) = k" using h by (simp add: hrep_def)
  note S = predecessor_hrep[OF h d]
  show ?case
  proof (cases "zprev (Br l a c k r) fs")
    case None
    with S zprev_props(2)[OF None] kx show ?thesis
      by (subst collect.simps) (simp add: t Valid_def Value_def Next_def collect_end)
  next
    case (Some p)
    obtain t' fs' where p: "p = (t', fs')" by (cases p)
    note P = zprev_props(1)[OF Some[unfolded p]]
    have h': "hrep s t' fs'" and d': "distinct (addrs t' @ ctx_addrs fs')"
      using hrep_refocus(1)[OF _ h] hrep_refocus(2)[OF _ d] P by auto
    have "length (prefix_keys t' fs') < length (prefix_keys t fs)" using P t by simp
    from less.hyps[OF this h' d'] P
    have "collect \<lparr>node = ptr t', reverse = True\<rparr> s (acc @ [k]) =
          Some (Inr ((acc @ [k]) @ rev (prefix_keys t' fs')))" by simp
    with S Some p P kx show ?thesis
      by (subst collect.simps) (simp add: t Valid_def Value_def Next_def)
  qed
qed

lemma forward_keys_abs:
  assumes "abs_set s T"
  shows "forward_keys s = Some (Inr (inorder T))"
proof (cases T)
  case Leaf
  with assms show ?thesis
    by (simp add: forward_keys_def Begin_def abs_set_def collect_end)
next
  case (Br l a c k r)
  from assms have h: "hrep s T []" and d: "distinct (addrs T @ ctx_addrs [])"
    by (simp_all add: abs_set_hrep)
  obtain t' fs' where m: "dmin T [] = (t', fs')" by (cases "dmin T []")
  from dmin_props[OF m] Br obtain a' c' k' r' where
    P: "t' = Br Leaf a' c' k' r'" "plug t' fs' = plug T []" "ctx_before fs' = []"
       "inorder t' @ ctx_after fs' = inorder T" by auto
  have h': "hrep s t' fs'" and d': "distinct (addrs t' @ ctx_addrs fs')"
    using hrep_refocus(1)[OF P(2) h] hrep_refocus(2)[OF P(2) d] by auto
  have sk: "suffix_keys t' fs' = inorder T" using P(1,4) by simp
  have "collect \<lparr>node = ptr t', reverse = False\<rparr> s [] = Some (Inr ([] @ suffix_keys t' fs'))"
    by (rule collect_forward[OF h' d']) (simp add: P(1))
  then have "collect \<lparr>node = ptr t', reverse = False\<rparr> s [] = Some (Inr (inorder T))"
    by (simp only: sk append_Nil)
  moreover have "root s = ptr T" "root s \<noteq> None" using h Br by (simp_all add: hrep_def)
  ultimately show ?thesis
    using minimum_hrep[OF h, unfolded m] Br
    by (simp add: forward_keys_def Begin_def)
qed

lemma reverse_keys_abs:
  assumes "abs_set s T"
  shows "reverse_keys s = Some (Inr (rev (inorder T)))"
proof (cases T)
  case Leaf
  with assms show ?thesis
    by (simp add: reverse_keys_def RBegin_def abs_set_def collect_end)
next
  case (Br l a c k r)
  from assms have h: "hrep s T []" and d: "distinct (addrs T @ ctx_addrs [])"
    by (simp_all add: abs_set_hrep)
  obtain t' fs' where m: "dmax T [] = (t', fs')" by (cases "dmax T []")
  from dmax_props[OF m] Br obtain l' a' c' k' where
    P: "t' = Br l' a' c' k' Leaf" "plug t' fs' = plug T []" "ctx_after fs' = []"
       "ctx_before fs' @ inorder t' = inorder T" by auto
  have h': "hrep s t' fs'" and d': "distinct (addrs t' @ ctx_addrs fs')"
    using hrep_refocus(1)[OF P(2) h] hrep_refocus(2)[OF P(2) d] by auto
  have pk: "prefix_keys t' fs' = inorder T" using P(1,4) by simp
  have "collect \<lparr>node = ptr t', reverse = True\<rparr> s [] =
        Some (Inr ([] @ rev (prefix_keys t' fs')))"
    by (rule collect_backward[OF h' d']) (simp add: P(1))
  then have "collect \<lparr>node = ptr t', reverse = True\<rparr> s [] = Some (Inr (rev (inorder T)))"
    by (simp only: pk append_Nil)
  moreover have "root s = ptr T" "root s \<noteq> None" using h Br by (simp_all add: hrep_def)
  ultimately show ?thesis
    using maximum_hrep[OF h, unfolded m] Br
    by (simp add: reverse_keys_def RBegin_def)
qed





lemma has_key_Cons: "has_key cmp k (x # xs) = (cmp k x = 0 \<or> has_key cmp k xs)"
  by (auto simp: has_key_def)

lemma insert_all_abs:
  assumes "cmp_ok cmp"
  shows "compare s = cmp \<Longrightarrow> abs_set s T \<Longrightarrow> col T = Black \<Longrightarrow> ascending cmp (inorder T) \<Longrightarrow>
     distinct_keys cmp ks \<Longrightarrow> \<forall>k\<in>set ks. \<not> has_key cmp k (inorder T) \<Longrightarrow>
     \<exists>s' T'. insert_all ks s = Some (Inr s') \<and> abs_set s' T' \<and> col T' = Black \<and>
        ascending cmp (inorder T') \<and> set (inorder T') = set ks \<union> set (inorder T) \<and>
        length (inorder T') = length ks + length (inorder T) \<and>
        size_s s' = size_s s + int (length ks) \<and> compare s' = cmp"
proof (induction ks arbitrary: s T)
  case Nil
  then show ?case by auto
next
  case (Cons k ks)
  from Cons.prems have nk: "\<not> has_key cmp k (inorder T)" by simp
  from ins_tree_total[OF assms Cons.prems(4,3), of k "fresh s"] nk obtain T1 where
    it: "ins_tree cmp k (fresh s) T = Some (True, T1)" and
    p: "col T1 = Black" "ascending cmp (inorder T1)" "set (inorder T1) = insert k (set (inorder T))"
       "length (inorder T1) = Suc (length (inorder T))"
    by auto
  from Insert_abs[OF Cons.prems(2) it[folded Cons.prems(1)]] obtain s1 where
    i: "Insert k s = Some (Inr (True, s1))" and a: "abs_set s1 T1" and c: "compare s1 = cmp"
    and z: "size_s s1 = size_s s + 1" using Cons.prems(1) by auto
  have dk: "distinct_keys cmp ks" and kk: "\<not> has_key cmp k ks" using Cons.prems(5) by simp_all
  have fr: "\<forall>k'\<in>set ks. \<not> has_key cmp k' (inorder T1)"
  proof
    fix k' assume k': "k' \<in> set ks"
    with kk have "cmp k k' \<noteq> 0" by (auto simp: has_key_def)
    then have "cmp k' k \<noteq> 0" using cmp_okD(6)[OF assms, of k k'] by simp
    moreover have "\<not> has_key cmp k' (inorder T)" using Cons.prems(6) k' by simp
    ultimately show "\<not> has_key cmp k' (inorder T1)" using p(3) by (auto simp: has_key_def)
  qed
  from Cons.IH[OF c a p(1,2) dk fr] obtain s' T' where
    r: "insert_all ks s1 = Some (Inr s')" "abs_set s' T'" "col T' = Black"
       "ascending cmp (inorder T')" "set (inorder T') = set ks \<union> set (inorder T1)"
       "length (inorder T') = length ks + length (inorder T1)"
       "size_s s' = size_s s1 + int (length ks)" "compare s' = cmp" by blast
  with i p z show ?case by auto
qed

lemma cmp_ok_nil_compare: "cmp_ok nil_compare"
  unfolding cmp_ok_def nil_compare_def int_compare_def
  by (auto split: option.splits)

section \<open>The deletion fixup on the store\<close>

lemma nil_or_black_ptr: "rep (nodes s) par t \<Longrightarrow> nil_or_black (ptr t) s = (col t = Black)"
  by (cases t) (auto simp: nil_or_black_def)

lemma hrep_root: "hrep s t fs \<Longrightarrow> root s = ptr (plug t fs)"
  by (simp add: hrep_def ptr_plug)

lemma rest_left_case2:
  assumes "hrep s x (LF pa pc pk (Br wl wa wc wk wy) # fs)"
      and "distinct (addrs x @ ctx_addrs (LF pa pc pk (Br wl wa wc wk wy) # fs))"
      and "col wl = Black" "col wy = Black"
  shows "\<exists>s'. deleteFixup_rest_left (Some wa) (Some pa) s = Inr (Some pa, hole_parent fs, s') \<and>
           hrep s' (Br x pa pc pk (Br wl wa Red wk wy)) fs \<and> same_hdr s s'"
proof -
  from assms(1) have rl: "rep (nodes s) (Some wa) wl" and rr: "rep (nodes s) (Some wa) wy"
    by (simp_all add: hrep_def)
  show ?thesis
    using assms nil_or_black_ptr[OF rl] nil_or_black_ptr[OF rr]
    by (cases fs rule: ctx_cases)
       (simp_all add: deleteFixup_rest_left_def hrep_def same_hdr_def)
qed

lemma rest_left_case4:
  assumes "hrep s x (LF pa pc pk (Br wl wa wc wk wy) # fs)"
      and "distinct (addrs x @ ctx_addrs (LF pa pc pk (Br wl wa wc wk wy) # fs))"
      and "col wy = Red"
  shows "\<exists>s'. deleteFixup_rest_left (Some wa) (Some pa) s = Inr (root s', Some pa, s') \<and>
           hrep s' (Br (Br x pa Black pk wl) wa pc wk (paint Black wy)) fs \<and> same_hdr s s'"
proof -
  from assms(3) obtain wrl wra wrk wrr where wyq: "wy = Br wrl wra Red wrk wrr"
    by (cases wy) auto
  from assms(1) have rl: "rep (nodes s) (Some wa) wl" and rr: "rep (nodes s) (Some wa) wy"
    by (simp_all add: hrep_def)
  let ?s3 = "blacken_if_present (Some wra) (set_color pa Black (set_color wa pc s))"
  have 3: "hrep ?s3 (Br x pa Black pk (Br wl wa pc wk (Br wrl wra Black wrk wrr))) fs"
    using assms(1,2) by (simp add: hrep_def wyq blacken_if_present_def)
  have d3: "distinct (addrs (Br x pa Black pk (Br wl wa pc wk (Br wrl wra Black wrk wrr))) @ ctx_addrs fs)"
    using assms(2) by (auto simp: wyq)
  from leftRotate_hrep[OF 3 d3] obtain s4 where
    r4: "leftRotate (Some pa) ?s3 = Inr s4" and
    h4: "hrep s4 (Br (Br x pa Black pk wl) wa pc wk (Br wrl wra Black wrk wrr)) fs"
    and e4: "same_hdr ?s3 s4" by blast
  have "deleteFixup_rest_left (Some wa) (Some pa) s = Inr (root s4, Some pa, s4)"
    using assms(1,2) r4 nil_or_black_ptr[OF rr]
    by (simp add: deleteFixup_rest_left_def hrep_def wyq nil_or_black_def)
  moreover have "same_hdr s s4" using e4 by (simp add: same_hdr_def blacken_if_present_def)
  ultimately show ?thesis using h4 by (auto simp: wyq)
qed

lemma rest_left_case3:
  assumes "hrep s x (LF pa pc pk (Br (Br wll wla Red wlk wlr) wa wc wk wy) # fs)"
      and "distinct (addrs x @ ctx_addrs (LF pa pc pk (Br (Br wll wla Red wlk wlr) wa wc wk wy) # fs))"
      and "col wy = Black"
  shows "\<exists>s'. deleteFixup_rest_left (Some wa) (Some pa) s = Inr (root s', Some pa, s') \<and>
           hrep s' (Br (Br x pa Black pk wll) wla pc wlk (Br wlr wa Black wk wy)) fs \<and> same_hdr s s'"
proof -
  from assms(1) have rr: "rep (nodes s) (Some wa) wy" by (simp add: hrep_def)
  let ?s2 = "set_color wa Red (blacken_if_present (Some wla) s)"
  have 2: "hrep ?s2 (Br (Br wll wla Black wlk wlr) wa Red wk wy) (RF x pa pc pk # fs)"
    using assms(1,2) by (simp add: hrep_def blacken_if_present_def)
  have d2: "distinct (addrs (Br (Br wll wla Black wlk wlr) wa Red wk wy) @ ctx_addrs (RF x pa pc pk # fs))"
    using assms(2) by auto
  from rightRotate_hrep[OF 2 d2] obtain s3 where
    r3: "rightRotate (Some wa) ?s2 = Inr s3" and
    h3: "hrep s3 (Br wll wla Black wlk (Br wlr wa Red wk wy)) (RF x pa pc pk # fs)"
    and e3: "same_hdr ?s2 s3" by blast
  let ?s6 = "blacken_if_present (Some wa) (set_color pa Black (set_color wla pc s3))"
  have 6: "hrep ?s6 (Br x pa Black pk (Br wll wla pc wlk (Br wlr wa Black wk wy))) fs"
    using h3 d2 by (simp add: hrep_def blacken_if_present_def)
  have d6: "distinct (addrs (Br x pa Black pk (Br wll wla pc wlk (Br wlr wa Black wk wy))) @ ctx_addrs fs)"
    using assms(2) by auto
  from leftRotate_hrep[OF 6 d6] obtain s7 where
    r7: "leftRotate (Some pa) ?s6 = Inr s7" and
    h7: "hrep s7 (Br (Br x pa Black pk wll) wla pc wlk (Br wlr wa Black wk wy)) fs"
    and e7: "same_hdr ?s6 s7" by blast
  have "deleteFixup_rest_left (Some wa) (Some pa) s = Inr (root s7, Some pa, s7)"
    using assms(1,2,3) r3 h3 d2 r7 nil_or_black_ptr[OF rr]
    by (simp add: deleteFixup_rest_left_def hrep_def nil_or_black_def)
  moreover have "same_hdr s s7"
    using e3 e7 by (simp add: same_hdr_def blacken_if_present_def)
  ultimately show ?thesis using h7 by auto
qed


lemma rest_right_case2:
  assumes "hrep s x (RF (Br wl wa wc wk wy) pa pc pk # fs)"
      and "distinct (addrs x @ ctx_addrs (RF (Br wl wa wc wk wy) pa pc pk # fs))"
      and "col wl = Black" "col wy = Black"
  shows "\<exists>s'. deleteFixup_rest_right (Some wa) (Some pa) s = Inr (Some pa, hole_parent fs, s') \<and>
           hrep s' (Br (Br wl wa Red wk wy) pa pc pk x) fs \<and> same_hdr s s'"
proof -
  from assms(1) have rl: "rep (nodes s) (Some wa) wl" and rr: "rep (nodes s) (Some wa) wy"
    by (simp_all add: hrep_def)
  show ?thesis
    using assms nil_or_black_ptr[OF rl] nil_or_black_ptr[OF rr]
    by (cases fs rule: ctx_cases)
       (simp_all add: deleteFixup_rest_right_def hrep_def same_hdr_def)
qed

lemma rest_right_case4:
  assumes "hrep s x (RF (Br wl wa wc wk wy) pa pc pk # fs)"
      and "distinct (addrs x @ ctx_addrs (RF (Br wl wa wc wk wy) pa pc pk # fs))"
      and "col wl = Red"
  shows "\<exists>s'. deleteFixup_rest_right (Some wa) (Some pa) s = Inr (root s', Some pa, s') \<and>
           hrep s' (Br (paint Black wl) wa pc wk (Br wy pa Black pk x)) fs \<and> same_hdr s s'"
proof -
  from assms(3) obtain wll wla wlk wlr where wlq: "wl = Br wll wla Red wlk wlr"
    by (cases wl) auto
  from assms(1) have rl: "rep (nodes s) (Some wa) wl" and rr: "rep (nodes s) (Some wa) wy"
    by (simp_all add: hrep_def)
  let ?s3 = "blacken_if_present (Some wla) (set_color pa Black (set_color wa pc s))"
  have 3: "hrep ?s3 (Br (Br (Br wll wla Black wlk wlr) wa pc wk wy) pa Black pk x) fs"
    using assms(1,2) by (simp add: hrep_def wlq blacken_if_present_def)
  have d3: "distinct (addrs (Br (Br (Br wll wla Black wlk wlr) wa pc wk wy) pa Black pk x) @ ctx_addrs fs)"
    using assms(2) by (auto simp: wlq)
  from rightRotate_hrep[OF 3 d3] obtain s4 where
    r4: "rightRotate (Some pa) ?s3 = Inr s4" and
    h4: "hrep s4 (Br (Br wll wla Black wlk wlr) wa pc wk (Br wy pa Black pk x)) fs"
    and e4: "same_hdr ?s3 s4" by blast
  have "deleteFixup_rest_right (Some wa) (Some pa) s = Inr (root s4, Some pa, s4)"
    using assms(1,2) r4 nil_or_black_ptr[OF rl]
    by (simp add: deleteFixup_rest_right_def hrep_def wlq nil_or_black_def)
  moreover have "same_hdr s s4" using e4 by (simp add: same_hdr_def blacken_if_present_def)
  ultimately show ?thesis using h4 by (auto simp: wlq)
qed

lemma rest_right_case3:
  assumes "hrep s x (RF (Br wl wa wc wk (Br wrl wra Red wrk wrr)) pa pc pk # fs)"
      and "distinct (addrs x @ ctx_addrs (RF (Br wl wa wc wk (Br wrl wra Red wrk wrr)) pa pc pk # fs))"
      and "col wl = Black"
  shows "\<exists>s'. deleteFixup_rest_right (Some wa) (Some pa) s = Inr (root s', Some pa, s') \<and>
           hrep s' (Br (Br wl wa Black wk wrl) wra pc wrk (Br wrr pa Black pk x)) fs \<and> same_hdr s s'"
proof -
  from assms(1) have rl: "rep (nodes s) (Some wa) wl" by (simp add: hrep_def)
  let ?s2 = "set_color wa Red (blacken_if_present (Some wra) s)"
  have 2: "hrep ?s2 (Br wl wa Red wk (Br wrl wra Black wrk wrr)) (LF pa pc pk x # fs)"
    using assms(1,2) by (simp add: hrep_def blacken_if_present_def)
  have d2: "distinct (addrs (Br wl wa Red wk (Br wrl wra Black wrk wrr)) @ ctx_addrs (LF pa pc pk x # fs))"
    using assms(2) by auto
  from leftRotate_hrep[OF 2 d2] obtain s3 where
    r3: "leftRotate (Some wa) ?s2 = Inr s3" and
    h3: "hrep s3 (Br (Br wl wa Red wk wrl) wra Black wrk wrr) (LF pa pc pk x # fs)"
    and e3: "same_hdr ?s2 s3" by blast
  let ?s6 = "blacken_if_present (Some wa) (set_color pa Black (set_color wra pc s3))"
  have 6: "hrep ?s6 (Br (Br (Br wl wa Black wk wrl) wra pc wrk wrr) pa Black pk x) fs"
    using h3 d2 by (simp add: hrep_def blacken_if_present_def)
  have d6: "distinct (addrs (Br (Br (Br wl wa Black wk wrl) wra pc wrk wrr) pa Black pk x) @ ctx_addrs fs)"
    using assms(2) by auto
  from rightRotate_hrep[OF 6 d6] obtain s7 where
    r7: "rightRotate (Some pa) ?s6 = Inr s7" and
    h7: "hrep s7 (Br (Br wl wa Black wk wrl) wra pc wrk (Br wrr pa Black pk x)) fs"
    and e7: "same_hdr ?s6 s7" by blast
  have "deleteFixup_rest_right (Some wa) (Some pa) s = Inr (root s7, Some pa, s7)"
    using assms(1,2,3) r3 h3 d2 r7 nil_or_black_ptr[OF rl]
    by (simp add: deleteFixup_rest_right_def hrep_def nil_or_black_def)
  moreover have "same_hdr s s7"
    using e3 e7 by (simp add: same_hdr_def blacken_if_present_def)
  ultimately show ?thesis using h7 by auto
qed

lemma rest_left_hrep:
  assumes "hrep s x (LF pa pc pk (Br wl wa wc wk wy) # fs)"
      and "distinct (addrs x @ ctx_addrs (LF pa pc pk (Br wl wa wc wk wy) # fs))"
      and "del_left x pa pc pk (Br wl wa wc wk wy) fs = Some (t', fs')"
  shows "\<exists>s' par'. deleteFixup_rest_left (Some wa) (Some pa) s = Inr (ptr t', par', s') \<and>
           hrep s' t' fs' \<and> same_hdr s s' \<and> (fs' \<noteq> [] \<longrightarrow> par' = hole_parent fs')"
proof (cases "col wl = Black \<and> col wy = Black")
  case True
  with rest_left_case2[OF assms(1,2)] assms(3) show ?thesis
    by (auto simp: del_left_def)
next
  case False
  show ?thesis
  proof (cases "col wy = Black")
    case True
    with False assms(3) obtain wll wla wlk wlr where wlq: "wl = Br wll wla Red wlk wlr"
      by (cases wl rule: col_cases) (auto simp: del_left_def)
    from rest_left_case3[OF assms(1,2)[unfolded wlq] True] obtain s' where
      r: "deleteFixup_rest_left (Some wa) (Some pa) s = Inr (root s', Some pa, s')"
         "hrep s' (Br (Br x pa Black pk wll) wla pc wlk (Br wlr wa Black wk wy)) fs" "same_hdr s s'"
      by blast
    from assms(3) True wlq have t': "t' = plug (Br (Br x pa Black pk wll) wla pc wlk (Br wlr wa Black wk wy)) fs"
      "fs' = []" by (auto simp: del_left_def)
    from r(2) have "hrep s' t' []" "root s' = ptr t'"
      using hrep_plug[of s' _ fs] hrep_root[OF r(2)] by (auto simp: t')
    with r t' show ?thesis by auto
  next
    case wyr: False
    then have c: "col wy = Red" by (cases "col wy") auto
    from rest_left_case4[OF assms(1,2) c] obtain s' where
      r: "deleteFixup_rest_left (Some wa) (Some pa) s = Inr (root s', Some pa, s')"
         "hrep s' (Br (Br x pa Black pk wl) wa pc wk (paint Black wy)) fs" "same_hdr s s'"
      by blast
    from assms(3) c have t': "t' = plug (Br (Br x pa Black pk wl) wa pc wk (paint Black wy)) fs"
      "fs' = []" by (auto simp: del_left_def)
    from r(2) have "hrep s' t' []" "root s' = ptr t'"
      using hrep_plug[of s' _ fs] hrep_root[OF r(2)] by (auto simp: t')
    with r t' show ?thesis by auto
  qed
qed

lemma rest_right_hrep:
  assumes "hrep s x (RF (Br wl wa wc wk wy) pa pc pk # fs)"
      and "distinct (addrs x @ ctx_addrs (RF (Br wl wa wc wk wy) pa pc pk # fs))"
      and "del_right x (Br wl wa wc wk wy) pa pc pk fs = Some (t', fs')"
  shows "\<exists>s' par'. deleteFixup_rest_right (Some wa) (Some pa) s = Inr (ptr t', par', s') \<and>
           hrep s' t' fs' \<and> same_hdr s s' \<and> (fs' \<noteq> [] \<longrightarrow> par' = hole_parent fs')"
proof (cases "col wl = Black \<and> col wy = Black")
  case True
  with rest_right_case2[OF assms(1,2)] assms(3) show ?thesis
    by (auto simp: del_right_def)
next
  case False
  show ?thesis
  proof (cases "col wl = Black")
    case True
    with False assms(3) obtain wrl wra wrk wrr where wyq: "wy = Br wrl wra Red wrk wrr"
      by (cases wy rule: col_cases) (auto simp: del_right_def)
    from rest_right_case3[OF assms(1,2)[unfolded wyq] True] obtain s' where
      r: "deleteFixup_rest_right (Some wa) (Some pa) s = Inr (root s', Some pa, s')"
         "hrep s' (Br (Br wl wa Black wk wrl) wra pc wrk (Br wrr pa Black pk x)) fs" "same_hdr s s'"
      by blast
    from assms(3) True wyq have t': "t' = plug (Br (Br wl wa Black wk wrl) wra pc wrk (Br wrr pa Black pk x)) fs"
      "fs' = []" by (auto simp: del_right_def)
    from r(2) have "hrep s' t' []" "root s' = ptr t'"
      using hrep_plug[of s' _ fs] hrep_root[OF r(2)] by (auto simp: t')
    with r t' show ?thesis by auto
  next
    case wlr: False
    then have c: "col wl = Red" by (cases "col wl") auto
    from rest_right_case4[OF assms(1,2) c] obtain s' where
      r: "deleteFixup_rest_right (Some wa) (Some pa) s = Inr (root s', Some pa, s')"
         "hrep s' (Br (paint Black wl) wa pc wk (Br wy pa Black pk x)) fs" "same_hdr s s'"
      by blast
    from assms(3) c have t': "t' = plug (Br (paint Black wl) wa pc wk (Br wy pa Black pk x)) fs"
      "fs' = []" by (auto simp: del_right_def)
    from r(2) have "hrep s' t' []" "root s' = ptr t'"
      using hrep_plug[of s' _ fs] hrep_root[OF r(2)] by (auto simp: t')
    with r t' show ?thesis by auto
  qed
qed

lemma red_left_hrep:
  assumes "hrep s x (LF pa pc pk (Br wl wa Red wk wy) # fs)"
      and "distinct (addrs x @ ctx_addrs (LF pa pc pk (Br wl wa Red wk wy) # fs))"
  shows "\<exists>s'. deleteFixup_red_left (Some wa) (Some pa) s = Inr (ptr wl, s') \<and>
           hrep s' x (LF pa Red pk wl # LF wa Black wk wy # fs) \<and> same_hdr s s'"
proof -
  let ?s2 = "set_color pa Red (set_color wa Black s)"
  have 2: "hrep ?s2 (Br x pa Red pk (Br wl wa Black wk wy)) fs"
    using assms by (simp add: hrep_def)
  have d2: "distinct (addrs (Br x pa Red pk (Br wl wa Black wk wy)) @ ctx_addrs fs)"
    using assms(2) by auto
  from leftRotate_hrep[OF 2 d2] obtain s3 where
    r3: "leftRotate (Some pa) ?s2 = Inr s3" and
    h3: "hrep s3 (Br (Br x pa Red pk wl) wa Black wk wy) fs" and e3: "same_hdr ?s2 s3" by blast
  have "deleteFixup_red_left (Some wa) (Some pa) s = Inr (ptr wl, s3)"
    using assms(1) r3 h3 by (simp add: deleteFixup_red_left_def hrep_def)
  moreover have "hrep s3 x (LF pa Red pk wl # LF wa Black wk wy # fs)"
    using h3 by (simp add: hrep_up)
  moreover have "same_hdr s s3" using e3 by (simp add: same_hdr_def)
  ultimately show ?thesis by blast
qed

lemma red_right_hrep:
  assumes "hrep s x (RF (Br wl wa Red wk wy) pa pc pk # fs)"
      and "distinct (addrs x @ ctx_addrs (RF (Br wl wa Red wk wy) pa pc pk # fs))"
  shows "\<exists>s'. deleteFixup_red_right (Some wa) (Some pa) s = Inr (ptr wy, s') \<and>
           hrep s' x (RF wy pa Red pk # RF wl wa Black wk # fs) \<and> same_hdr s s'"
proof -
  let ?s2 = "set_color pa Red (set_color wa Black s)"
  have 2: "hrep ?s2 (Br (Br wl wa Black wk wy) pa Red pk x) fs"
    using assms by (simp add: hrep_def)
  have d2: "distinct (addrs (Br (Br wl wa Black wk wy) pa Red pk x) @ ctx_addrs fs)"
    using assms(2) by auto
  from rightRotate_hrep[OF 2 d2] obtain s3 where
    r3: "rightRotate (Some pa) ?s2 = Inr s3" and
    h3: "hrep s3 (Br wl wa Black wk (Br wy pa Red pk x)) fs" and e3: "same_hdr ?s2 s3" by blast
  have "deleteFixup_red_right (Some wa) (Some pa) s = Inr (ptr wy, s3)"
    using assms(1) r3 h3 by (simp add: deleteFixup_red_right_def hrep_def)
  moreover have "hrep s3 x (RF wy pa Red pk # RF wl wa Black wk # fs)"
    using h3 by (simp add: hrep_up)
  moreover have "same_hdr s s3" using e3 by (simp add: same_hdr_def)
  ultimately show ?thesis by blast
qed


lemma del_left_Some_Br: "del_left x pa pc pk w fs = Some r \<Longrightarrow> \<exists>wl wa wc wk wy. w = Br wl wa wc wk wy"
  by (cases w) (auto simp: del_left_def)

lemma del_right_Some_Br: "del_right x w pa pc pk fs = Some r \<Longrightarrow> \<exists>wl wa wc wk wy. w = Br wl wa wc wk wy"
  by (cases w) (auto simp: del_right_def)

lemma deleteFixup_body_hrep:
  assumes "hrep s t (f # fs)" "distinct (addrs t @ ctx_addrs (f # fs))"
      and "del_step t f fs = Some (t', fs')"
  shows "\<exists>s' par'. deleteFixup_body (ptr t) (Some (faddr f)) s = Inr (ptr t', par', s') \<and>
           hrep s' t' fs' \<and> same_hdr s s' \<and> (fs' \<noteq> [] \<longrightarrow> par' = hole_parent fs')"
proof (cases f)
  case f: (LF pa pc pk w)
  with assms(3) obtain wl wa wc wk wy where w: "w = Br wl wa wc wk wy"
    by (cases w) (auto simp: del_step_def)
  note h = assms(1)[unfolded f w] and d = assms(2)[unfolded f w]
  have side: "deleteFixup_body (ptr t) (Some pa) s =
     bindE (deleteFixup_red_left (Some wa) (Some pa) s) (\<lambda>(w, s). deleteFixup_rest_left w (Some pa) s)"
    using h by (simp add: deleteFixup_body_def hrep_def)
  show ?thesis
  proof (cases "wc = Red")
    case True
    from red_left_hrep[OF h[unfolded True] d[unfolded True]] obtain s1 where
      r1: "deleteFixup_red_left (Some wa) (Some pa) s = Inr (ptr wl, s1)" and
      h1: "hrep s1 t (LF pa Red pk wl # LF wa Black wk wy # fs)" and e1: "same_hdr s s1" by blast
    from assms(3) f w True have dl: "del_left t pa Red pk wl (LF wa Black wk wy # fs) = Some (t', fs')"
      by (simp add: del_step_def)
    from del_left_Some_Br[OF dl] obtain ul ua uc uk uy where u: "wl = Br ul ua uc uk uy" by blast
    have d1: "distinct (addrs t @ ctx_addrs (LF pa Red pk (Br ul ua uc uk uy) # LF wa Black wk wy # fs))"
      using d u by auto
    from rest_left_hrep[OF h1[unfolded u] d1 dl[unfolded u]] obtain s' par' where
      "deleteFixup_rest_left (Some ua) (Some pa) s1 = Inr (ptr t', par', s')" "hrep s' t' fs'"
      "same_hdr s1 s'" "fs' \<noteq> [] \<longrightarrow> par' = hole_parent fs'" by blast
    with side r1 u e1 f show ?thesis
      by (auto intro: same_hdr_trans)
  next
    case False
    have r1: "deleteFixup_red_left (Some wa) (Some pa) s = Inr (Some wa, s)"
      using h False by (simp add: deleteFixup_red_left_def hrep_def)
    from assms(3) f w False have dl: "del_left t pa pc pk (Br wl wa wc wk wy) fs = Some (t', fs')"
      by (simp add: del_step_def)
    from rest_left_hrep[OF h d dl] side r1 f show ?thesis by auto
  qed
next
  case f: (RF w pa pc pk)
  with assms(3) obtain wl wa wc wk wy where w: "w = Br wl wa wc wk wy"
    by (cases w) (auto simp: del_step_def)
  note h = assms(1)[unfolded f w] and d = assms(2)[unfolded f w]
  have ne: "ptr t \<noteq> Some wa" using d by (cases t) auto
  have side: "deleteFixup_body (ptr t) (Some pa) s =
     bindE (deleteFixup_red_right (Some wa) (Some pa) s) (\<lambda>(w, s). deleteFixup_rest_right w (Some pa) s)"
    using h ne by (simp add: deleteFixup_body_def hrep_def)
  show ?thesis
  proof (cases "wc = Red")
    case True
    from red_right_hrep[OF h[unfolded True] d[unfolded True]] obtain s1 where
      r1: "deleteFixup_red_right (Some wa) (Some pa) s = Inr (ptr wy, s1)" and
      h1: "hrep s1 t (RF wy pa Red pk # RF wl wa Black wk # fs)" and e1: "same_hdr s s1" by blast
    from assms(3) f w True have dl: "del_right t wy pa Red pk (RF wl wa Black wk # fs) = Some (t', fs')"
      by (simp add: del_step_def)
    from del_right_Some_Br[OF dl] obtain ul ua uc uk uy where u: "wy = Br ul ua uc uk uy" by blast
    have d1: "distinct (addrs t @ ctx_addrs (RF (Br ul ua uc uk uy) pa Red pk # RF wl wa Black wk # fs))"
      using d u by auto
    from rest_right_hrep[OF h1[unfolded u] d1 dl[unfolded u]] obtain s' par' where
      "deleteFixup_rest_right (Some ua) (Some pa) s1 = Inr (ptr t', par', s')" "hrep s' t' fs'"
      "same_hdr s1 s'" "fs' \<noteq> [] \<longrightarrow> par' = hole_parent fs'" by blast
    with side r1 u e1 f show ?thesis
      by (auto intro: same_hdr_trans)
  next
    case False
    have r1: "deleteFixup_red_right (Some wa) (Some pa) s = Inr (Some wa, s)"
      using h False by (simp add: deleteFixup_red_right_def hrep_def)
    from assms(3) f w False have dl: "del_right t (Br wl wa wc wk wy) pa pc pk fs = Some (t', fs')"
      by (simp add: del_step_def)
    from rest_right_hrep[OF h d dl] side r1 f show ?thesis by auto
  qed
qed

section \<open>Insert\<close>

text \<open>
  C3.  Let the store represent the tree \<open>T\<close> with a Black root and keys ascending under
  the comparator.  \<open>Contains(k)\<close> tells whether a key comparing equal to \<open>k\<close> is in \<open>T\<close>.
  If none is, \<open>Insert(k)\<close> returns true, the size grows by one, a following
  \<open>Contains(k)\<close> returns true, and the new store again represents such a tree, whose keys
  are those of \<open>T\<close> and \<open>k\<close>.  If one is, \<open>Insert(k)\<close> returns false and the store it
  returns is the store it was given.
\<close>

theorem Insert_postcondition:
  assumes "abs_set s T" "col T = Black" "ascending (compare s) (inorder T)" "cmp_ok (compare s)"
  shows "Contains k s = Some (Inr (has_key (compare s) k (inorder T), s)) \<and>
         (\<not> has_key (compare s) k (inorder T) \<longrightarrow>
            (\<exists>s' T'. Insert k s = Some (Inr (True, s')) \<and> size_s s' = size_s s + 1 \<and>
               Contains k s' = Some (Inr (True, s')) \<and>
               abs_set s' T' \<and> col T' = Black \<and> ascending (compare s') (inorder T') \<and>
               set (inorder T') = insert k (set (inorder T)))) \<and>
         (has_key (compare s) k (inorder T) \<longrightarrow> Insert k s = Some (Inr (False, s)))"
proof -
  from ins_tree_total[OF assms(4,3,2), of k "fresh s"] obtain T' where
    it: "ins_tree (compare s) k (fresh s) T = Some (\<not> has_key (compare s) k (inorder T), T')"
    and p: "col T' = Black" "ascending (compare s) (inorder T')"
      "\<not> has_key (compare s) k (inorder T) \<longrightarrow> set (inorder T') = insert k (set (inorder T))"
    by blast
  from Insert_abs[OF assms(1) it] obtain s' where
    i: "Insert k s = Some (Inr (\<not> has_key (compare s) k (inorder T), s'))" and
    a: "abs_set s' T'" and c: "compare s' = compare s" and
    z: "size_s s' = size_s s + (if \<not> has_key (compare s) k (inorder T) then 1 else 0)" and
    u: "has_key (compare s) k (inorder T) \<longrightarrow> s' = s"
    by auto
  have c1: "Contains k s = Some (Inr (has_key (compare s) k (inorder T), s))"
    using Contains_abs[OF assms(1,3,4)] .
  have c2: "Contains k s' = Some (Inr (has_key (compare s) k (inorder T'), s'))"
    using Contains_abs[OF a] p(2) assms(4) c by simp
  have kk: "compare s k k = 0" using cmp_okD(5)[OF assms(4)] .
  show ?thesis
  proof (cases "has_key (compare s) k (inorder T)")
    case True
    with c1 i u show ?thesis by simp
  next
    case False
    with p(3) kk have "has_key (compare s) k (inorder T')" by (auto simp: has_key_def)
    with False c1 c2 i z a p c show ?thesis by auto
  qed
qed

theorem Insert_postcondition_witness:
  "(\<exists>s'. Insert 2 one_set = Some (Inr (True, s')) \<and> size_s s' = 2 \<and>
       Contains 2 s' = Some (Inr (True, s'))) \<and>
   Insert 1 one_set = Some (Inr (False, one_set)) \<and>
   Contains 1 one_set = Some (Inr (True, one_set)) \<and>
   Contains 2 one_set = Some (Inr (False, one_set))"
proof -
  have a: "abs_set one_set one_tree" by (rule abs_set_one_set)
  have b: "col one_tree = Black" by (simp add: one_tree_def)
  have c: "ascending (compare one_set) (inorder one_tree)"
    by (simp add: one_tree_def ascending_def)
  have d: "cmp_ok (compare one_set)" by (simp add: one_set_def cmp_ok_int_compare)
  have h1: "has_key (compare one_set) 1 (inorder one_tree)"
    by (simp add: has_key_def one_tree_def one_set_def int_compare_def)
  have h2: "\<not> has_key (compare one_set) 2 (inorder one_tree)"
    by (simp add: has_key_def one_tree_def one_set_def int_compare_def)
  have z: "size_s one_set = 1" by (simp add: one_set_def)
  from Insert_postcondition[OF a b c d, of 1] Insert_postcondition[OF a b c d, of 2] h1 h2 z
  show ?thesis by auto
qed

section \<open>Iteration order\<close>

text \<open>
  C5.  After inserting a list of keys, no two of which compare equal, into a new set,
  the traversal from \<open>Begin\<close> with \<open>Next\<close> until the iterator is invalid returns a list
  that is strictly ascending under the comparator and holds exactly the inserted keys
  (as many as were inserted), and the traversal from \<open>RBegin\<close> with \<open>Next\<close> returns the
  reverse of that list.
\<close>

theorem iteration_round_trip:
  assumes "cmp_ok cmp" "distinct_keys cmp ks"
  shows "\<exists>s' out. insert_all ks (NewSet cmp mem) = Some (Inr s') \<and>
           forward_keys s' = Some (Inr out) \<and> reverse_keys s' = Some (Inr (rev out)) \<and>
           ascending cmp out \<and> set out = set ks \<and> length out = length ks"
proof -
  have a0: "abs_set (NewSet cmp mem) Leaf" by (simp add: abs_set_def NewSet_def)
  have c0: "compare (NewSet cmp mem) = cmp" by (simp add: NewSet_def)
  from insert_all_abs[OF assms(1) c0 a0 _ _ assms(2)] obtain s' T' where
    r: "insert_all ks (NewSet cmp mem) = Some (Inr s')" "abs_set s' T'"
       "ascending cmp (inorder T')" "set (inorder T') = set ks"
       "length (inorder T') = length ks"
    by (auto simp: has_key_def)
  with forward_keys_abs[OF r(2)] reverse_keys_abs[OF r(2)] show ?thesis by auto
qed

theorem iteration_round_trip_witness:
  "\<exists>s' out. insert_all [Some 10, Some 20, None, Some 15] (NewSet nil_compare nil_mem) = Some (Inr s') \<and>
      forward_keys s' = Some (Inr out) \<and> reverse_keys s' = Some (Inr (rev out)) \<and>
      ascending nil_compare out \<and> set out = {Some 10, Some 20, None, Some 15} \<and> length out = 4"
proof -
  have d: "distinct_keys nil_compare [Some 10, Some 20, None, Some 15]"
    by (simp add: has_key_def nil_compare_def int_compare_def)
  from iteration_round_trip[OF cmp_ok_nil_compare d, of nil_mem] show ?thesis
    by auto
qed

section \<open>Prev from a sentinel\<close>



section \<open>Iterator sentinels\<close>

text \<open>
  C2.  The claim that no public operation panics fails for \<open>Prev\<close>: on the End or the
  REnd iterator of an empty set, \<open>Prev\<close> calls \<open>maximum\<close> (or \<open>minimum\<close>) with the nil
  root, and the loop condition \<open>x.right != nil\<close> dereferences nil.  The evaluation
  holds for every comparator and every memory content.
\<close>

theorem Prev_on_empty_set_panics:
  "Prev (fst (End (NewSet cmp mem))) (NewSet cmp mem) = Some (Inl NilDeref) \<and>
   Prev (fst (REnd (NewSet cmp mem))) (NewSet cmp mem) = Some (Inl NilDeref)"
  by (simp add: Prev_def End_def REnd_def NewSet_def minimum.simps maximum.simps)

text \<open>
  C7.  \<open>Next\<close> on an iterator whose node is nil, in either direction, returns false and
  leaves the iterator and the store as they are; so it does on \<open>End\<close> and \<open>REnd\<close>.
\<close>

theorem Next_on_sentinel_stays:
  "Next \<lparr>node = None, reverse = r\<rparr> s = Some (Inr (False, \<lparr>node = None, reverse = r\<rparr>, s)) \<and>
   Next (fst (End s)) s = Some (Inr (False, fst (End s), s)) \<and>
   Next (fst (REnd s)) s = Some (Inr (False, fst (REnd s), s)) \<and>
   fst (Valid \<lparr>node = None, reverse = r\<rparr> s) = False"
  by (simp add: Next_def End_def REnd_def Valid_def)

text \<open>
  C9.  The claim that \<open>Value\<close> returns nil exactly at a sentinel fails: \<open>Insert\<close>
  accepts the nil key, and on the iterator positioned at that node \<open>Valid\<close> is true
  while \<open>Value\<close> returns nil.
\<close>

theorem Value_nil_key_counterexample:
  "Insert None (NewSet nil_compare nil_mem) = Some (Inr (True, nil_key_set)) \<and>
   Begin nil_key_set = Some (Inr (\<lparr>node = Some 0, reverse = False\<rparr>, nil_key_set)) \<and>
   fst (Valid \<lparr>node = Some 0, reverse = False\<rparr> nil_key_set) \<and>
   fst (Value \<lparr>node = Some 0, reverse = False\<rparr> nil_key_set) = None \<and>
   \<not> ((fst (Value \<lparr>node = Some 0, reverse = False\<rparr> nil_key_set) = None) =
      (node \<lparr>node = Some 0, reverse = False\<rparr> = None))"
  by (simp add: Insert_def NewSet_def alloc_def nil_key_set_def Begin_def minimum.simps
        Valid_def Value_def)

text \<open>
  C9, as the code has it.  \<open>Value\<close> returns nil on a nil node and the key stored at the
  node otherwise, so it returns nil exactly when the iterator is at a sentinel or the
  key stored at its node is nil; \<open>Valid\<close> is true exactly when the node is not nil.
\<close>

theorem Value_Valid_observed:
  "fst (Value \<lparr>node = None, reverse = r\<rparr> s) = None \<and>
   fst (Value \<lparr>node = Some a, reverse = r\<rparr> s) = key (nodes s a) \<and>
   (fst (Value it s) = None) =
     (node it = None \<or> (\<exists>b. node it = Some b \<and> key (nodes s b) = None)) \<and>
   fst (Valid it s) = (node it \<noteq> None)"
  by (cases "node it") (simp_all add: Value_def Valid_def)

section \<open>Read operations leave the store alone\<close>

text \<open>
  C10.  \<open>Size\<close>, \<open>IsEmpty\<close>, \<open>End\<close>, \<open>REnd\<close>, \<open>Value\<close> and \<open>Valid\<close> return the
  store they were given, and whenever \<open>Contains\<close>, \<open>Begin\<close>, \<open>RBegin\<close>, \<open>Next\<close> or
  \<open>Prev\<close> returns, the store it returns is the store it was given (root, nodes with
  their colors, keys and links, and size).  \<open>Value\<close> and \<open>Valid\<close> leave the iterator
  unchanged as well.
\<close>

theorem read_operations_pure:
  "snd (Size s) = s \<and> snd (IsEmpty s) = s \<and> snd (End s) = s \<and> snd (REnd s) = s \<and>
   snd (Value it sv) = (it, sv) \<and> snd (Valid it s) = (it, s) \<and>
   (\<forall>b s'. Contains k s = Some (Inr (b, s')) \<longrightarrow> s' = s) \<and>
   (\<forall>it' s'. Begin s = Some (Inr (it', s')) \<longrightarrow> s' = s) \<and>
   (\<forall>it' s'. RBegin s = Some (Inr (it', s')) \<longrightarrow> s' = s) \<and>
   (\<forall>b it' s'. Next it s = Some (Inr (b, it', s')) \<longrightarrow> s' = s) \<and>
   (\<forall>b it' s'. Prev it s = Some (Inr (b, it', s')) \<longrightarrow> s' = s)"
proof -
  have "snd (Value it sv) = (it, sv)"
    by (cases "node it") (simp_all add: Value_def)
  moreover have "\<forall>b s'. Contains k s = Some (Inr (b, s')) \<longrightarrow> s' = s"
    by (auto simp: Contains_def)
  moreover have "\<forall>it' s'. Begin s = Some (Inr (it', s')) \<longrightarrow> s' = s"
    by (auto simp: Begin_def bindO_eq_Some_Inr split: if_splits)
  moreover have "\<forall>it' s'. RBegin s = Some (Inr (it', s')) \<longrightarrow> s' = s"
    by (auto simp: RBegin_def bindO_eq_Some_Inr split: if_splits)
  moreover have "\<forall>b it' s'. Next it s = Some (Inr (b, it', s')) \<longrightarrow> s' = s"
    by (auto simp: Next_def bindO_eq_Some_Inr split: if_splits)
  moreover have "\<forall>b it' s'. Prev it s = Some (Inr (b, it', s')) \<longrightarrow> s' = s"
    by (auto simp: Prev_def bindO_eq_Some_Inr split: if_splits)
  ultimately show ?thesis
    by (simp add: Size_def IsEmpty_def End_def REnd_def Valid_def)
qed

theorem read_operations_pure_witness:
  "(\<exists>b s'. Contains 1 one_set = Some (Inr (b, s')) \<and> s' = one_set) \<and>
   (\<exists>it' s'. Begin one_set = Some (Inr (it', s')) \<and> s' = one_set) \<and>
   (\<exists>it' s'. RBegin one_set = Some (Inr (it', s')) \<and> s' = one_set) \<and>
   (\<exists>b it' s'. Next \<lparr>node = Some 0, reverse = False\<rparr> one_set = Some (Inr (b, it', s'))
      \<and> s' = one_set) \<and>
   (\<exists>b it' s'. Prev \<lparr>node = None, reverse = False\<rparr> one_set = Some (Inr (b, it', s'))
      \<and> s' = one_set)"
proof -
  have c: "\<exists>b s'. Contains 1 one_set = Some (Inr (b, s'))"
    by (auto simp: Contains_def Contains_loop.simps one_set_def int_compare_def)
  have b: "\<exists>it' s'. Begin one_set = Some (Inr (it', s'))"
    by (auto simp: Begin_def minimum.simps one_set_def)
  have r: "\<exists>it' s'. RBegin one_set = Some (Inr (it', s'))"
    by (auto simp: RBegin_def maximum.simps one_set_def)
  have n: "\<exists>b it' s'. Next \<lparr>node = Some 0, reverse = False\<rparr> one_set = Some (Inr (b, it', s'))"
    by (auto simp: Next_def successor_def successor_up.simps one_set_def)
  have p: "\<exists>b it' s'. Prev \<lparr>node = None, reverse = False\<rparr> one_set = Some (Inr (b, it', s'))"
    by (auto simp: Prev_def maximum.simps one_set_def)
  note t1 = read_operations_pure
    [where s = one_set and it = "\<lparr>node = Some 0, reverse = False\<rparr>" and k = 1]
  note t2 = read_operations_pure
    [where s = one_set and it = "\<lparr>node = None, reverse = False\<rparr>" and k = 1]
  from c t1 have "\<exists>b s'. Contains 1 one_set = Some (Inr (b, s')) \<and> s' = one_set"
    by metis
  moreover from b t1 have "\<exists>it' s'. Begin one_set = Some (Inr (it', s')) \<and> s' = one_set"
    by metis
  moreover from r t1 have "\<exists>it' s'. RBegin one_set = Some (Inr (it', s')) \<and> s' = one_set"
    by metis
  moreover from n t1 have "\<exists>b it' s'.
      Next \<lparr>node = Some 0, reverse = False\<rparr> one_set = Some (Inr (b, it', s')) \<and> s' = one_set"
    by metis
  moreover from p t2 have "\<exists>b it' s'.
      Prev \<lparr>node = None, reverse = False\<rparr> one_set = Some (Inr (b, it', s')) \<and> s' = one_set"
    by metis
  ultimately show ?thesis
    by blast
qed

end
